theory Spec2Isabelle
  imports Main "HOL-Library.Sublist" "HOL-Library.Char_ord" "HOL-Library.List_Lexorder"
begin

section \<open>Python strings\<close>

text \<open>
  A Python \<open>str\<close> is a sequence of code points. It is modelled by \<^typ>\<open>string\<close>, a
  list of \<^typ>\<open>char\<close>, every \<^typ>\<open>char\<close> standing for the code point of its numeric
  value (\<open>0 .. 255\<close>). On this range the whitespace removed by \<open>str.strip()\<close> and
  \<open>str.rstrip()\<close> is \<open>\t \n \v \f \r\<close>, \<open>0x1c .. 0x1f\<close>, the space, \<open>0x85\<close> and
  \<open>0xa0\<close>; \<open>str.lower()\<close> adds 32 to \<open>A .. Z\<close> and to \<open>0xc0 .. 0xde\<close> except \<open>0xd7\<close>,
  and leaves every other code point alone.
\<close>

definition NL :: char where
  "NL = CHR 0x0A"

definition CR :: char where
  "CR = CHR 0x0D"

definition is_space :: "char \<Rightarrow> bool" where
  "is_space c = ((of_char c :: nat) \<in> {9, 10, 11, 12, 13, 28, 29, 30, 31, 32, 133, 160})"

definition is_upper :: "char \<Rightarrow> bool" where
  "is_upper c = (let n = (of_char c :: nat) in
     (65 \<le> n \<and> n \<le> 90) \<or> (192 \<le> n \<and> n \<le> 222 \<and> n \<noteq> 215))"

definition lower_char :: "char \<Rightarrow> char" where
  "lower_char c = (if is_upper c then char_of ((of_char c :: nat) + 32) else c)"

text \<open>\<open>s.lower()\<close>\<close>

definition lower :: "string \<Rightarrow> string" where
  "lower s = map lower_char s"

text \<open>\<open>s.lstrip()\<close>, \<open>s.rstrip()\<close> and \<open>s.strip()\<close>, without argument.\<close>

definition lstrip :: "string \<Rightarrow> string" where
  "lstrip s = dropWhile is_space s"

definition rstrip :: "string \<Rightarrow> string" where
  "rstrip s = rev (dropWhile is_space (rev s))"

definition strip :: "string \<Rightarrow> string" where
  "strip s = rstrip (lstrip s)"

text \<open>
  What reading a file opened in text mode with the default \<open>newline=None\<close> does to its
  line endings: \<open>\r\n\<close> and a lone \<open>\r\<close> both become \<open>\n\<close>.
\<close>

fun universal_newlines :: "string \<Rightarrow> string" where
  "universal_newlines [] = []"
| "universal_newlines [c] = (if c = CR then [NL] else [c])"
| "universal_newlines (c # d # cs) =
     (if c = CR then (if d = NL then NL # universal_newlines cs
                      else NL # universal_newlines (d # cs))
      else c # universal_newlines (d # cs))"

text \<open>\<open>s.startswith(p)\<close>\<close>

definition startswith :: "string \<Rightarrow> string \<Rightarrow> bool" where
  "startswith s p = prefix p s"

text \<open>\<open>sep.join(xs)\<close>\<close>

fun join :: "string \<Rightarrow> string list \<Rightarrow> string" where
  "join sep [] = []"
| "join sep [x] = x"
| "join sep (x # y # ys) = x @ sep @ join sep (y # ys)"

text \<open>
  The first occurrence of a non-empty literal \<open>pat\<close> in \<open>s\<close>, scanning from the left as
  the regular expression engine does: the text before it and the text after it, or
  \<open>None\<close> when \<open>pat\<close> does not occur.
\<close>

fun split_on :: "string \<Rightarrow> string \<Rightarrow> (string \<times> string) option" where
  "split_on pat [] = (if pat = [] then Some ([], []) else None)"
| "split_on pat (c # cs) =
     (if prefix pat (c # cs) then Some ([], drop (length pat) (c # cs))
      else (case split_on pat cs of
              None \<Rightarrow> None
            | Some (a, b) \<Rightarrow> Some (c # a, b)))"

text \<open>The number of positions of \<open>s\<close> at which the literal \<open>pat\<close> occurs.\<close>

fun count_occ :: "string \<Rightarrow> string \<Rightarrow> nat" where
  "count_occ pat [] = (if pat = [] then 1 else 0)"
| "count_occ pat (c # cs) = (if prefix pat (c # cs) then 1 else 0) + count_occ pat cs"

section \<open>Constants\<close>

definition HOSTS_TAG_START :: string where
  "HOSTS_TAG_START = ''# === ULTRA_POMODORO_BLOCK_START ===''"

definition HOSTS_TAG_END :: string where
  "HOSTS_TAG_END = ''# === ULTRA_POMODORO_BLOCK_END ===''"

section \<open>The hosts block\<close>

lemma split_on_length:
  "split_on pat s = Some (a, b) \<Longrightarrow> length a + length pat + length b = length s"
proof (induction s arbitrary: a b)
  case Nil
  then show ?case by (auto split: if_splits)
next
  case (Cons c cs)
  show ?case
  proof (cases "prefix pat (c # cs)")
    case True
    with Cons.prems have "a = []" "b = drop (length pat) (c # cs)" by auto
    moreover from True have "length pat \<le> length (c # cs)" by (rule prefix_length_le)
    ultimately show ?thesis by simp
  next
    case False
    with Cons.prems obtain a' where s: "split_on pat cs = Some (a', b)" and a: "a = c # a'"
      by (auto split: option.splits)
    from Cons.IH [OF s] a show ?thesis by simp
  qed
qed

text \<open>
  \<open>re.sub(pattern, "", hosts_text)\<close> for the pattern
  \<open>re.escape(HOSTS_TAG_START) + ".*?" + re.escape(HOSTS_TAG_END)\<close> under \<open>re.DOTALL\<close>:
  the leftmost start marker that has an end marker after it matches, lazily up to the
  first such end marker; the match is deleted and the scan goes on behind it. When the
  leftmost start marker has no end marker after it, no later one has, and the rest of
  the text is kept.
\<close>

function re_sub_block :: "string \<Rightarrow> string" where
  "re_sub_block s =
     (case split_on HOSTS_TAG_START s of
        None \<Rightarrow> s
      | Some (a, r) \<Rightarrow>
          (case split_on HOSTS_TAG_END r of
             None \<Rightarrow> s
           | Some (m, r') \<Rightarrow> a @ re_sub_block r'))"
  by pat_completeness auto
termination
proof (relation "measure length", goal_cases)
  case 1
  show ?case by simp
next
  case (2 s x a r y m r')
  then have "length a + length HOSTS_TAG_START + length r = length s"
    and "length m + length HOSTS_TAG_END + length r' = length r"
    by (auto dest: split_on_length)
  then show ?case by (simp add: HOSTS_TAG_END_def)
qed

declare re_sub_block.simps [simp del]

definition strip_ultra_block_section :: "string \<Rightarrow> string" where
  "strip_ultra_block_section hosts_text =
     (let cleaned = re_sub_block hosts_text
      in rstrip cleaned @ [NL])"


section \<open>The domain normalizer\<close>

text \<open>\<open>re.sub(r"^https?://", "", d)\<close>: the pattern is anchored at the start of \<open>d\<close>.\<close>

definition re_sub_scheme :: "string \<Rightarrow> string" where
  "re_sub_scheme d =
     (if prefix ''http://'' d then drop 7 d
      else if prefix ''https://'' d then drop 8 d
      else d)"

text \<open>\<open>d.split("/")[0]\<close>: the text before the first slash, all of \<open>d\<close> when there is none.\<close>

definition split_slash_first :: "string \<Rightarrow> string" where
  "split_slash_first d = takeWhile (\<lambda>c. c \<noteq> CHR ''/'') d"

text \<open>
  The body of the first loop of \<open>expand_domains\<close> up to the two \<open>append\<close>s: \<open>None\<close> is
  the \<open>continue\<close>. An element that is \<open>None\<close> in Python is replaced by \<open>""\<close> by \<open>d or ""\<close>
  and takes the same branch as the empty string.
\<close>

definition canon :: "string \<Rightarrow> string option" where
  "canon d0 =
     (let d = lower (strip d0) in
      if d = [] then None
      else
        let d = (if startswith d ''http://'' \<or> startswith d ''https://''
                 then re_sub_scheme d else d);
            d = split_slash_first d
        in Some d)"

definition expand_step :: "string list \<Rightarrow> string \<Rightarrow> string list" where
  "expand_step out d0 =
     (case canon d0 of
        None \<Rightarrow> out
      | Some d \<Rightarrow>
          (let out = out @ [d]
           in if \<not> startswith d ''www.'' then out @ [''www.'' @ d] else out))"

text \<open>The second loop: \<open>seen\<close> and \<open>uniq\<close> are the loop's two variables.\<close>

fun uniq_loop :: "string set \<Rightarrow> string list \<Rightarrow> string list \<Rightarrow> string list" where
  "uniq_loop seen uniq [] = uniq"
| "uniq_loop seen uniq (d # ds) =
     (if d \<notin> seen then uniq_loop (insert d seen) (uniq @ [d]) ds
      else uniq_loop seen uniq ds)"

definition expand_domains :: "string list \<Rightarrow> string list" where
  "expand_domains domains =
     (let out = foldl expand_step [] domains
      in uniq_loop {} [] out)"

section \<open>The hosts file and the process\<close>

text \<open>
  What the functions below read and change: the effective user id (\<open>None\<close> when \<open>os\<close> has
  no \<open>geteuid\<close>), the platform, the decoded content of \<open>/etc/hosts\<close> (\<open>None\<close> when opening
  or decoding it raises), what becomes of an attempt to write a given text, and the
  trace of the file accesses and commands run so far.

  \<open>write_hosts\<close> opens the file with mode \<open>"w"\<close> and then calls \<open>f.write(text)\<close>; both can
  raise, and both exceptions are caught. When \<open>open\<close> raises the file is as it was. When
  \<open>f.write\<close> raises, \<open>open\<close> has already truncated the file, which then holds what had
  been written so far: nothing when the text cannot be encoded, a part of the text when
  the disk is full. Which of the three happens depends on the system and on the text,
  so it is a field of the environment. On the systems where \<open>os.geteuid\<close> exists, a text
  written in text mode reaches the file with its \<open>\n\<close> unchanged.
\<close>

datatype io_event = ReadHosts | WriteHosts string | RunCmd "string list"

datatype write_outcome = WriteOk | OpenRaises | WriteRaises string

record env =
  euid :: "int option"
  macos :: bool
  hosts_file :: "string option"
  hosts_write :: "string \<Rightarrow> write_outcome"
  trace :: "io_event list"

definition is_macos :: "env \<Rightarrow> bool" where
  "is_macos e = macos e"

definition require_root :: "env \<Rightarrow> bool" where
  "require_root e = ((case euid e of None \<Rightarrow> - 1 | Some u \<Rightarrow> u) = 0)"

definition read_hosts :: "env \<Rightarrow> string \<times> env" where
  "read_hosts e =
     (case hosts_file e of None \<Rightarrow> [] | Some t \<Rightarrow> universal_newlines t,
      e\<lparr>trace := trace e @ [ReadHosts]\<rparr>)"

definition write_hosts :: "string \<Rightarrow> env \<Rightarrow> bool \<times> env" where
  "write_hosts text e =
     (case hosts_write e text of
        WriteOk \<Rightarrow>
          (True, e\<lparr>hosts_file := Some text, trace := trace e @ [WriteHosts text]\<rparr>)
      | OpenRaises \<Rightarrow>
          (False, e\<lparr>trace := trace e @ [WriteHosts text]\<rparr>)
      | WriteRaises left \<Rightarrow>
          (False, e\<lparr>hosts_file := Some left, trace := trace e @ [WriteHosts text]\<rparr>))"

definition flush_dns :: "env \<Rightarrow> env" where
  "flush_dns e =
     (if \<not> is_macos e then e
      else e\<lparr>trace := trace e @
                [RunCmd [''dscacheutil'', ''-flushcache''],
                 RunCmd [''killall'', ''-HUP'', ''mDNSResponder'']]\<rparr>)"

text \<open>The loop of \<open>apply_hosts_block\<close> that builds \<open>lines\<close>.\<close>

definition block_lines :: "string list \<Rightarrow> string list" where
  "block_lines domains =
     foldl (\<lambda>lines d. lines @ [''127.0.0.1 '' @ d, ''::1 '' @ d]) [HOSTS_TAG_START] domains
       @ [HOSTS_TAG_END]"

definition apply_hosts_block :: "string list \<Rightarrow> env \<Rightarrow> (bool \<times> string option) \<times> env" where
  "apply_hosts_block domains0 e =
     (if \<not> require_root e then ((False, Some ''permission''), e)
      else
        let domains = expand_domains domains0;
            (text, e) = read_hosts e;
            hosts = strip_ultra_block_section text;
            lines = block_lines domains;
            new_hosts = hosts @ [NL] @ join [NL] lines @ [NL];
            (ok, e) = write_hosts new_hosts e
        in if ok then ((True, None), flush_dns e)
           else ((False, Some ''write_failed''), e))"

definition clear_hosts_block :: "env \<Rightarrow> (bool \<times> string option) \<times> env" where
  "clear_hosts_block e =
     (if \<not> require_root e then ((False, Some ''permission''), e)
      else
        let (text, e) = read_hosts e;
            hosts = strip_ultra_block_section text;
            (ok, e) = write_hosts hosts e
        in if ok then ((True, None), flush_dns e)
           else ((False, Some ''write_failed''), e))"


section \<open>The resolution prober\<close>

text \<open>
  \<open>socket.getaddrinfo(domain, None)\<close> is the system's resolver: it returns a list of
  \<open>(family, type, proto, canonname, sockaddr)\<close> or raises. It is a parameter \<open>gai\<close> of the
  model. \<open>sockaddr[0]\<close> is the address, a string, for both address families.
\<close>

datatype py_error = AttributeError | OSError

datatype sockaddr = SockAddr4 string nat | SockAddr6 string nat nat nat

type_synonym addrinfo = "nat \<times> nat \<times> nat \<times> string \<times> sockaddr"

fun sockaddr0 :: "sockaddr \<Rightarrow> string" where
  "sockaddr0 (SockAddr4 host port) = host"
| "sockaddr0 (SockAddr6 host port flowinfo scope_id) = host"

definition resolve_all :: "(string \<Rightarrow> py_error + addrinfo list) \<Rightarrow> string \<Rightarrow> string list" where
  "resolve_all gai domain =
     (let ips = (case gai domain of
                   Inl err \<Rightarrow> {}
                 | Inr infos \<Rightarrow>
                     foldl (\<lambda>ips (fam, ty, proto, canonname, sa). insert (sockaddr0 sa) ips) {} infos)
      in sorted_list_of_set ips)"

section \<open>Socket rooms\<close>

text \<open>
  An event's payload is a decoded JSON value. The server keeps, for the namespace \<open>/\<close>,
  the members of every room in the order they entered (\<open>socketio.server.manager.rooms\<close>);
  \<open>outbox\<close> collects what \<open>emit\<close> sends: the event, the payload and the connections it is
  delivered to.
\<close>

datatype json = JNull | JBool bool | JNum int | JStr string | JArr "json list"
  | JObj "(string \<times> json) list"

record emission =
  ev :: string
  payload :: json
  recipients :: "string list"

record sio =
  rooms :: "string \<Rightarrow> string list"
  outbox :: "emission list"

text \<open>Python's truth value of a decoded JSON value, as \<open>data or {}\<close> tests it.\<close>

fun truthy :: "json \<Rightarrow> bool" where
  "truthy JNull = False"
| "truthy (JBool b) = b"
| "truthy (JNum n) = (n \<noteq> 0)"
| "truthy (JStr s) = (s \<noteq> [])"
| "truthy (JArr xs) = (xs \<noteq> [])"
| "truthy (JObj kvs) = (kvs \<noteq> [])"

text \<open>
  \<open>(data or {}).get("roomId", "").strip()\<close>: only a dict has \<open>get\<close> and only a string has
  \<open>strip\<close>; on anything else the attribute lookup raises.
\<close>

definition room_id_of :: "json \<Rightarrow> py_error + string" where
  "room_id_of data =
     (case (if truthy data then data else JObj []) of
        JObj kvs \<Rightarrow>
          (case (case map_of kvs ''roomId'' of None \<Rightarrow> JStr [] | Some v \<Rightarrow> v) of
             JStr s \<Rightarrow> Inr (strip s)
           | _ \<Rightarrow> Inl AttributeError)
      | _ \<Rightarrow> Inl AttributeError)"

definition members_in :: "string \<Rightarrow> sio \<Rightarrow> int" where
  "members_in room_id st = int (length (rooms st room_id))"

definition join_room :: "string \<Rightarrow> string \<Rightarrow> sio \<Rightarrow> sio" where
  "join_room room sid st =
     st\<lparr>rooms := (rooms st)(room :=
          (if sid \<in> set (rooms st room) then rooms st room else rooms st room @ [sid]))\<rparr>"

definition leave_room :: "string \<Rightarrow> string \<Rightarrow> sio \<Rightarrow> sio" where
  "leave_room room sid st = st\<lparr>rooms := (rooms st)(room := removeAll sid (rooms st room))\<rparr>"

text \<open>
  \<open>emit(event, data, room=room, include_self=...)\<close> called by the handler of connection
  \<open>sid\<close>: every member of \<open>room\<close> receives it, the caller too unless \<open>include_self\<close> is
  false.
\<close>

definition emit :: "string \<Rightarrow> json \<Rightarrow> string \<Rightarrow> bool \<Rightarrow> string \<Rightarrow> sio \<Rightarrow> sio" where
  "emit event data room include_self sid st =
     st\<lparr>outbox := outbox st @
          [\<lparr>ev = event, payload = data,
            recipients = filter (\<lambda>s. include_self \<or> s \<noteq> sid) (rooms st room)\<rparr>]\<rparr>"

definition members_msg :: "string \<Rightarrow> sio \<Rightarrow> json" where
  "members_msg room_id st =
     JObj [(''roomId'', JStr room_id), (''members'', JNum (members_in room_id st))]"

definition on_room_join :: "json \<Rightarrow> string \<Rightarrow> sio \<Rightarrow> (py_error + json option) \<times> sio" where
  "on_room_join data sid st =
     (case room_id_of data of
        Inl err \<Rightarrow> (Inl err, st)
      | Inr room_id \<Rightarrow>
          if room_id = [] then
            (Inr (Some (JObj [(''ok'', JBool False), (''error'', JStr ''missing roomId'')])), st)
          else
            let st = join_room room_id sid st;
                st = emit ''room:joined'' (members_msg room_id st) sid True sid st;
                st = emit ''room:members'' (members_msg room_id st) room_id True sid st
            in (Inr (Some (JObj [(''ok'', JBool True), (''roomId'', JStr room_id),
                                  (''members'', JNum (members_in room_id st))])), st))"

definition on_room_leave :: "json \<Rightarrow> string \<Rightarrow> sio \<Rightarrow> (py_error + json option) \<times> sio" where
  "on_room_leave data sid st =
     (case room_id_of data of
        Inl err \<Rightarrow> (Inl err, st)
      | Inr room_id \<Rightarrow>
          if room_id = [] then
            (Inr (Some (JObj [(''ok'', JBool False), (''error'', JStr ''missing roomId'')])), st)
          else
            let st = leave_room room_id sid st;
                st = emit ''room:members'' (members_msg room_id st) room_id True sid st;
                st = emit ''room:left'' (members_msg room_id st) sid True sid st
            in (Inr (Some (JObj [(''ok'', JBool True), (''roomId'', JStr room_id),
                                  (''members'', JNum (members_in room_id st))])), st))"

definition on_timer_sync :: "json \<Rightarrow> string \<Rightarrow> sio \<Rightarrow> (py_error + json option) \<times> sio" where
  "on_timer_sync data sid st =
     (case room_id_of data of
        Inl err \<Rightarrow> (Inl err, st)
      | Inr room_id \<Rightarrow>
          if room_id = [] then (Inr None, st)
          else (Inr None, emit ''timer:state'' data room_id False sid st))"

definition on_timer_penalty :: "json \<Rightarrow> string \<Rightarrow> sio \<Rightarrow> (py_error + json option) \<times> sio" where
  "on_timer_penalty data sid st =
     (case room_id_of data of
        Inl err \<Rightarrow> (Inl err, st)
      | Inr room_id \<Rightarrow>
          if room_id = [] then (Inr None, st)
          else (Inr None, emit ''timer:penalty'' data room_id False sid st))"


section \<open>Auxiliary notions\<close>

text \<open>What one canonical form contributes to \<open>out\<close>, for a prefix \<open>p\<close>.\<close>

definition with_prefixed :: "string \<Rightarrow> string \<Rightarrow> string list" where
  "with_prefixed p c = (if prefix p c then [c] else [c, p @ c])"

text \<open>The text between the two markers: two lines for every domain.\<close>

definition entries :: "string list \<Rightarrow> string" where
  "entries ds = concat (map (\<lambda>d. ''127.0.0.1 '' @ d @ [NL] @ ''::1 '' @ d @ [NL]) ds)"

section \<open>Privilege check\<close>

text \<open>
  Claim C3: without elevated privilege both \<open>apply_hosts_block\<close> and \<open>clear_hosts_block\<close>
  fail with the error \<open>permission\<close>, and the environment they return is the one they were
  given: the hosts file is the same and the trace has no new event, so the file was
  neither read nor written.
\<close>

theorem no_root_permission:
  "\<not> require_root e \<Longrightarrow>
     apply_hosts_block domains e = ((False, Some ''permission''), e) \<and>
     clear_hosts_block e = ((False, Some ''permission''), e)"
  by (simp add: apply_hosts_block_def clear_hosts_block_def)

theorem no_root_permission_witness:
  "\<not> require_root \<lparr>euid = Some 501, macos = True, hosts_file = Some ''127.0.0.1 localhost'',
        hosts_write = (\<lambda>t. WriteOk), trace = []\<rparr> \<and>
   apply_hosts_block [''example.com'']
     \<lparr>euid = Some 501, macos = True, hosts_file = Some ''127.0.0.1 localhost'',
        hosts_write = (\<lambda>t. WriteOk), trace = []\<rparr> =
     ((False, Some ''permission''),
      \<lparr>euid = Some 501, macos = True, hosts_file = Some ''127.0.0.1 localhost'',
        hosts_write = (\<lambda>t. WriteOk), trace = []\<rparr>) \<and>
   clear_hosts_block
     \<lparr>euid = Some 501, macos = True, hosts_file = Some ''127.0.0.1 localhost'',
        hosts_write = (\<lambda>t. WriteOk), trace = []\<rparr> =
     ((False, Some ''permission''),
      \<lparr>euid = Some 501, macos = True, hosts_file = Some ''127.0.0.1 localhost'',
        hosts_write = (\<lambda>t. WriteOk), trace = []\<rparr>)"
  using no_root_permission [of "\<lparr>euid = Some 501, macos = True,
        hosts_file = Some ''127.0.0.1 localhost'', hosts_write = (\<lambda>t. WriteOk), trace = []\<rparr>"
      "[''example.com'']"]
  by (simp add: require_root_def)

section \<open>Room events\<close>

lemma strip_blank: "strip ''  '' = []"
  by (simp add: strip_def lstrip_def rstrip_def is_space_def)

lemma strip_abc: "strip '' abc '' = ''abc''"
  by (simp add: strip_def lstrip_def rstrip_def is_space_def)

text \<open>The payloads for which the room id is defined, and its value.\<close>

lemma room_id_of_falsy: "\<not> truthy data \<Longrightarrow> room_id_of data = Inr []"
  by (simp add: room_id_of_def strip_def lstrip_def rstrip_def)

lemma room_id_of_string:
  "map_of kvs ''roomId'' = Some (JStr s) \<Longrightarrow> room_id_of (JObj kvs) = Inr (strip s)"
  by (cases kvs) (simp_all add: room_id_of_def)

lemma room_id_of_absent:
  "map_of kvs ''roomId'' = None \<Longrightarrow> room_id_of (JObj kvs) = Inr []"
  by (simp add: room_id_of_def strip_def lstrip_def rstrip_def)

text \<open>
  Claim C7: when the room id of a \<open>room:join\<close> or \<open>room:leave\<close> event is empty after
  trimming, the handler returns \<open>{ok: false, error: "missing roomId"}\<close> and leaves the
  server's state as it was: no membership changes and nothing is emitted.
\<close>

theorem missing_room_id:
  "room_id_of data = Inr [] \<Longrightarrow>
     on_room_join data sid st =
       (Inr (Some (JObj [(''ok'', JBool False), (''error'', JStr ''missing roomId'')])), st) \<and>
     on_room_leave data sid st =
       (Inr (Some (JObj [(''ok'', JBool False), (''error'', JStr ''missing roomId'')])), st)"
  by (simp add: on_room_join_def on_room_leave_def)

theorem missing_room_id_witness:
  "room_id_of (JObj [(''roomId'', JStr ''  '')]) = Inr [] \<and>
   on_room_join (JObj [(''roomId'', JStr ''  '')]) ''A''
       \<lparr>rooms = (\<lambda>r. [])(''abc'' := [''A'', ''B'']), outbox = []\<rparr> =
     (Inr (Some (JObj [(''ok'', JBool False), (''error'', JStr ''missing roomId'')])),
      \<lparr>rooms = (\<lambda>r. [])(''abc'' := [''A'', ''B'']), outbox = []\<rparr>) \<and>
   on_room_leave (JObj [(''roomId'', JStr ''  '')]) ''A''
       \<lparr>rooms = (\<lambda>r. [])(''abc'' := [''A'', ''B'']), outbox = []\<rparr> =
     (Inr (Some (JObj [(''ok'', JBool False), (''error'', JStr ''missing roomId'')])),
      \<lparr>rooms = (\<lambda>r. [])(''abc'' := [''A'', ''B'']), outbox = []\<rparr>)"
proof -
  have h: "room_id_of (JObj [(''roomId'', JStr ''  '')]) = Inr []"
    by (simp add: room_id_of_def strip_blank)
  from missing_room_id [OF h, of "''A''"
      "\<lparr>rooms = (\<lambda>r. [])(''abc'' := [''A'', ''B'']), outbox = []\<rparr>"] h
  show ?thesis by simp
qed

text \<open>
  Claim C4: a \<open>timer:sync\<close> or \<open>timer:penalty\<close> event whose room id is empty after trimming
  is dropped: the handler returns nothing and the state is unchanged. Otherwise the
  handler emits one message that carries the payload as received and is delivered to
  the members of the room other than the sender.
\<close>

theorem relay_to_others:
  assumes "room_id_of data = Inr room_id"
  shows "(room_id = [] \<longrightarrow>
            on_timer_sync data sid st = (Inr None, st) \<and>
            on_timer_penalty data sid st = (Inr None, st)) \<and>
         (room_id \<noteq> [] \<longrightarrow>
            (\<exists>m. on_timer_sync data sid st = (Inr None, st\<lparr>outbox := outbox st @ [m]\<rparr>) \<and>
                 ev m = ''timer:state'' \<and> payload m = data \<and>
                 set (recipients m) = set (rooms st room_id) - {sid}) \<and>
            (\<exists>m. on_timer_penalty data sid st = (Inr None, st\<lparr>outbox := outbox st @ [m]\<rparr>) \<and>
                 ev m = ''timer:penalty'' \<and> payload m = data \<and>
                 set (recipients m) = set (rooms st room_id) - {sid}))"
  using assms by (auto simp: on_timer_sync_def on_timer_penalty_def emit_def)

theorem relay_to_others_witness:
  "room_id_of (JObj [(''roomId'', JStr ''  '')]) = Inr [] \<and>
   on_timer_sync (JObj [(''roomId'', JStr ''  '')]) ''A''
       \<lparr>rooms = (\<lambda>r. [])(''abc'' := [''A'', ''B'']), outbox = []\<rparr> =
     (Inr None, \<lparr>rooms = (\<lambda>r. [])(''abc'' := [''A'', ''B'']), outbox = []\<rparr>) \<and>
   room_id_of (JObj [(''roomId'', JStr '' abc ''), (''left'', JNum 1500)]) = Inr ''abc'' \<and>
   (\<exists>m. on_timer_sync (JObj [(''roomId'', JStr '' abc ''), (''left'', JNum 1500)]) ''A''
            \<lparr>rooms = (\<lambda>r. [])(''abc'' := [''A'', ''B'']), outbox = []\<rparr> =
          (Inr None, \<lparr>rooms = (\<lambda>r. [])(''abc'' := [''A'', ''B'']), outbox = [m]\<rparr>) \<and>
        ev m = ''timer:state'' \<and>
        payload m = JObj [(''roomId'', JStr '' abc ''), (''left'', JNum 1500)] \<and>
        set (recipients m) = {''B''})"
proof -
  let ?st = "\<lparr>rooms = (\<lambda>r. [])(''abc'' := [''A'', ''B'']), outbox = []\<rparr>"
  have h1: "room_id_of (JObj [(''roomId'', JStr ''  '')]) = Inr []"
    by (simp add: room_id_of_def strip_blank)
  have h2: "room_id_of (JObj [(''roomId'', JStr '' abc ''), (''left'', JNum 1500)]) = Inr ''abc''"
    by (simp add: room_id_of_def strip_abc)
  from relay_to_others [OF h1, of "''A''" ?st] relay_to_others [OF h2, of "''A''" ?st] h1 h2
  show ?thesis by auto
qed

section \<open>Resolution\<close>

lemma foldl_insert_sockaddr0:
  "foldl (\<lambda>ips (fam, ty, proto, canonname, sa). insert (sockaddr0 sa) ips) S infos =
     S \<union> (\<lambda>(fam, ty, proto, canonname, sa). sockaddr0 sa) ` set infos"
  by (induction infos arbitrary: S) auto

text \<open>
  Claim C9: \<open>resolve_all\<close> returns the addresses the resolver gave, each once, in
  ascending order, and the empty list when the resolver raises. It is a function of the
  resolver's answer alone: it takes no environment, so it reads no privilege and
  changes no state.
\<close>

theorem resolve_all_sorted_distinct:
  "sorted (resolve_all gai domain) \<and> distinct (resolve_all gai domain) \<and>
   set (resolve_all gai domain) =
     (case gai domain of
        Inl err \<Rightarrow> {}
      | Inr infos \<Rightarrow> (\<lambda>(fam, ty, proto, canonname, sa). sockaddr0 sa) ` set infos) \<and>
   (\<forall>err. gai domain = Inl err \<longrightarrow> resolve_all gai domain = [])"
proof (cases "gai domain")
  case (Inl err)
  then show ?thesis by (simp add: resolve_all_def)
next
  case (Inr infos)
  then have "resolve_all gai domain =
      sorted_list_of_set ((\<lambda>(fam, ty, proto, canonname, sa). sockaddr0 sa) ` set infos)"
    by (simp add: resolve_all_def foldl_insert_sockaddr0)
  with Inr show ?thesis by simp
qed

theorem resolve_all_sorted_distinct_witness:
  "resolve_all (\<lambda>d. if d = ''example.com''
                     then Inr [(2, 1, 6, [], SockAddr4 ''93.184.216.34'' 0),
                               (2, 2, 17, [], SockAddr4 ''93.184.216.34'' 0),
                               (10, 1, 6, [], SockAddr6 ''2606:2800::1'' 0 0 0),
                               (2, 1, 6, [], SockAddr4 ''10.0.0.1'' 0)]
                     else Inl OSError) ''no.invalid'' = [] \<and>
   sorted (resolve_all (\<lambda>d. if d = ''example.com''
                     then Inr [(2, 1, 6, [], SockAddr4 ''93.184.216.34'' 0),
                               (2, 2, 17, [], SockAddr4 ''93.184.216.34'' 0),
                               (10, 1, 6, [], SockAddr6 ''2606:2800::1'' 0 0 0),
                               (2, 1, 6, [], SockAddr4 ''10.0.0.1'' 0)]
                     else Inl OSError) ''example.com'') \<and>
   set (resolve_all (\<lambda>d. if d = ''example.com''
                     then Inr [(2, 1, 6, [], SockAddr4 ''93.184.216.34'' 0),
                               (2, 2, 17, [], SockAddr4 ''93.184.216.34'' 0),
                               (10, 1, 6, [], SockAddr6 ''2606:2800::1'' 0 0 0),
                               (2, 1, 6, [], SockAddr4 ''10.0.0.1'' 0)]
                     else Inl OSError) ''example.com'') =
     {''93.184.216.34'', ''2606:2800::1'', ''10.0.0.1''}"
proof -
  let ?gai = "\<lambda>d. if d = ''example.com''
                     then Inr [(2::nat, 1::nat, 6::nat, [], SockAddr4 ''93.184.216.34'' 0),
                               (2, 2, 17, [], SockAddr4 ''93.184.216.34'' 0),
                               (10, 1, 6, [], SockAddr6 ''2606:2800::1'' 0 0 0),
                               (2, 1, 6, [], SockAddr4 ''10.0.0.1'' 0)]
                     else Inl OSError"
  from resolve_all_sorted_distinct [of ?gai "''no.invalid''"]
    resolve_all_sorted_distinct [of ?gai "''example.com''"]
  show ?thesis by auto
qed


section \<open>Stripping the tagged block\<close>

lemma rstrip_last: "rstrip s \<noteq> [] \<Longrightarrow> \<not> is_space (last (rstrip s))"
  unfolding rstrip_def using hd_dropWhile [of is_space "rev s"]
  by (simp add: last_rev)

lemma rstrip_id: "s = [] \<or> \<not> is_space (last s) \<Longrightarrow> rstrip s = s"
  by (cases s rule: rev_cases) (auto simp: rstrip_def)

lemma rstrip_idem: "rstrip (rstrip s) = rstrip s"
  using rstrip_last [of s] by (intro rstrip_id) auto

lemma rstrip_append_spaces:
  assumes "\<forall>c\<in>set w. is_space c"
  shows "rstrip (s @ w) = rstrip s"
proof -
  from assms have "dropWhile is_space (rev w @ rev s) = dropWhile is_space (rev s)"
    by (intro dropWhile_append2) simp
  then show ?thesis by (simp add: rstrip_def)
qed


lemma is_space_NL: "is_space NL"
  by (simp add: is_space_def NL_def)

lemma rstrip_prefix: "prefix (rstrip s) s"
proof -
  have "suffix (dropWhile is_space (rev s)) (rev s)" by (rule suffix_dropWhile)
  then have "prefix (rev (dropWhile is_space (rev s))) (rev (rev s))"
    by (simp only: suffix_to_prefix)
  then show ?thesis by (simp add: rstrip_def)
qed

lemma split_on_None: "split_on pat s = None \<longleftrightarrow> \<not> sublist pat s"
proof (induction s)
  case Nil
  then show ?case by simp
next
  case (Cons c cs)
  then show ?case by (auto simp: sublist_Cons_right split: option.splits)
qed

lemma split_on_Some: "split_on pat s = Some (a, b) \<Longrightarrow> s = a @ pat @ b"
proof (induction s arbitrary: a b)
  case Nil
  then show ?case by (auto split: if_splits)
next
  case (Cons c cs)
  then show ?case by (auto simp: prefix_def split: if_splits option.splits)
qed

lemma re_sub_block_no_match:
  assumes "\<not> (\<exists>a m b. s = a @ HOSTS_TAG_START @ m @ HOSTS_TAG_END @ b)"
  shows "re_sub_block s = s"
proof (cases "split_on HOSTS_TAG_START s")
  case None
  then show ?thesis by (subst re_sub_block.simps) simp
next
  case (Some p)
  obtain a r where p: "p = (a, r)" by (cases p)
  show ?thesis
  proof (cases "split_on HOSTS_TAG_END r")
    case None
    with Some p show ?thesis by (subst re_sub_block.simps) simp
  next
    case (Some q)
    obtain m r' where q: "q = (m, r')" by (cases q)
    from \<open>split_on HOSTS_TAG_START s = Some p\<close> p have "s = a @ HOSTS_TAG_START @ r"
      by (auto dest: split_on_Some)
    moreover from Some q have "r = m @ HOSTS_TAG_END @ r'" by (auto dest: split_on_Some)
    ultimately have "s = a @ HOSTS_TAG_START @ m @ HOSTS_TAG_END @ r'" by simp
    with assms show ?thesis by blast
  qed
qed

lemma re_sub_block_no_start: "\<not> sublist HOSTS_TAG_START s \<Longrightarrow> re_sub_block s = s"
  by (rule re_sub_block_no_match) (auto simp: sublist_def)

text \<open>
  Claim C10: the result of \<open>strip_ultra_block_section\<close> is \<open>rstrip()\<close> of the text left by
  the substitution, followed by one newline: it ends with a newline, a whitespace
  character, and what precedes that newline is empty or ends with a character that is
  not whitespace. This happens to a document without any start marker too, whose
  trailing whitespace is replaced by the single newline.
\<close>

theorem strip_ends_with_one_newline:
  "strip_ultra_block_section s = rstrip (re_sub_block s) @ [NL] \<and>
   is_space NL \<and>
   (rstrip (re_sub_block s) = [] \<or> \<not> is_space (last (rstrip (re_sub_block s)))) \<and>
   (\<not> sublist HOSTS_TAG_START s \<longrightarrow> strip_ultra_block_section s = rstrip s @ [NL])"
  using rstrip_last [of "re_sub_block s"]
  by (auto simp: strip_ultra_block_section_def is_space_NL re_sub_block_no_start)

theorem strip_ends_with_one_newline_witness:
  "\<not> sublist HOSTS_TAG_START (''127.0.0.1 localhost'' @ [NL, NL, CHR '' '']) \<and>
   strip_ultra_block_section (''127.0.0.1 localhost'' @ [NL, NL, CHR '' '']) =
     ''127.0.0.1 localhost'' @ [NL] \<and>
   \<not> is_space (last ''127.0.0.1 localhost'')"
proof -
  let ?doc = "''127.0.0.1 localhost'' @ [NL, NL, CHR '' '']"
  have h: "\<not> sublist HOSTS_TAG_START ?doc"
    by code_simp
  have r: "rstrip ?doc = ''127.0.0.1 localhost''"
    by code_simp
  have l: "\<not> is_space (last ''127.0.0.1 localhost'')"
    by code_simp
  from strip_ends_with_one_newline [of ?doc]
  have "\<not> sublist HOSTS_TAG_START ?doc \<longrightarrow> strip_ultra_block_section ?doc = rstrip ?doc @ [NL]"
    by (elim conjE)
  with h have "strip_ultra_block_section ?doc = rstrip ?doc @ [NL]"
    by (rule rev_mp)
  with r have "strip_ultra_block_section ?doc = ''127.0.0.1 localhost'' @ [NL]"
    by (simp only:)
  with h l show ?thesis
    by (intro conjI)
qed

lemma rstrip_decomp: "\<exists>w. s = rstrip s @ w \<and> (\<forall>c\<in>set w. is_space c)"
proof -
  have "rev (takeWhile is_space (rev s) @ dropWhile is_space (rev s)) = rev (rev s)"
    by (simp only: takeWhile_dropWhile_id)
  then have "s = rstrip s @ rev (takeWhile is_space (rev s))"
    by (simp only: rev_append rev_rev_ident rstrip_def)
  moreover have "\<forall>c\<in>set (rev (takeWhile is_space (rev s))). is_space c"
    by (auto dest: set_takeWhileD)
  ultimately show ?thesis by blast
qed

lemma rstrip_newline_fixed:
  "rstrip s @ [NL] = s \<longleftrightarrow> (\<exists>r. s = r @ [NL] \<and> (r = [] \<or> \<not> is_space (last r)))"
proof
  assume "rstrip s @ [NL] = s"
  with rstrip_last [of s] show "\<exists>r. s = r @ [NL] \<and> (r = [] \<or> \<not> is_space (last r))"
    by (intro exI [of _ "rstrip s"]) auto
next
  assume "\<exists>r. s = r @ [NL] \<and> (r = [] \<or> \<not> is_space (last r))"
  then obtain r where s: "s = r @ [NL]" and r: "r = [] \<or> \<not> is_space (last r)" by blast
  have "rstrip (r @ [NL]) = rstrip r"
    by (rule rstrip_append_spaces) (simp add: is_space_NL)
  with r s show "rstrip s @ [NL] = s" by (simp add: rstrip_id)
qed

text \<open>
  Claim C8, as amended: in a document where no start marker is followed by an end
  marker (a document with an end marker and no start marker is one), the substitution
  deletes nothing: \<open>strip_ultra_block_section\<close> returns the document with its trailing
  whitespace removed and one newline appended. The document comes back unchanged exactly
  when it already ends with one newline that follows a non-whitespace character or
  nothing.
\<close>

theorem strip_without_match:
  assumes "\<not> (\<exists>a m b. s = a @ HOSTS_TAG_START @ m @ HOSTS_TAG_END @ b)"
  shows "strip_ultra_block_section s = rstrip s @ [NL] \<and>
         (\<exists>w. s = rstrip s @ w \<and> (\<forall>c\<in>set w. is_space c)) \<and>
         (strip_ultra_block_section s = s \<longleftrightarrow>
            (\<exists>r. s = r @ [NL] \<and> (r = [] \<or> \<not> is_space (last r))))"
  using assms rstrip_decomp [of s] rstrip_newline_fixed [of s]
  by (simp add: strip_ultra_block_section_def re_sub_block_no_match)

lemma no_start_no_match:
  "\<not> sublist HOSTS_TAG_START s \<Longrightarrow> \<not> (\<exists>a m b. s = a @ HOSTS_TAG_START @ m @ HOSTS_TAG_END @ b)"
  by (auto simp: sublist_def)

theorem strip_without_match_witness:
  "sublist HOSTS_TAG_END (''127.0.0.1 localhost'' @ [NL] @ HOSTS_TAG_END @ [NL]) \<and>
   \<not> (\<exists>a m b. ''127.0.0.1 localhost'' @ [NL] @ HOSTS_TAG_END @ [NL] =
        a @ HOSTS_TAG_START @ m @ HOSTS_TAG_END @ b) \<and>
   strip_ultra_block_section (''127.0.0.1 localhost'' @ [NL] @ HOSTS_TAG_END @ [NL]) =
     ''127.0.0.1 localhost'' @ [NL] @ HOSTS_TAG_END @ [NL]"
proof -
  let ?doc = "''127.0.0.1 localhost'' @ [NL] @ HOSTS_TAG_END @ [NL]"
  have e: "sublist HOSTS_TAG_END ?doc"
    by code_simp
  have "\<not> sublist HOSTS_TAG_START ?doc"
    by code_simp
  then have h: "\<not> (\<exists>a m b. ?doc = a @ HOSTS_TAG_START @ m @ HOSTS_TAG_END @ b)"
    by (rule no_start_no_match)
  have r: "rstrip ?doc @ [NL] = ?doc"
    by code_simp
  from strip_without_match [OF h]
  have "strip_ultra_block_section ?doc = rstrip ?doc @ [NL]"
    by (elim conjE)
  with r have "strip_ultra_block_section ?doc = ?doc"
    by (simp only:)
  with e h show ?thesis
    by (intro conjI)
qed

text \<open>
  The claim as stated fails on a document that holds only the end marker and a blank
  line after it: the blank line is removed.
\<close>

theorem strip_end_only_counterexample:
  "sublist HOSTS_TAG_END (HOSTS_TAG_END @ [NL, NL]) \<and>
   \<not> sublist HOSTS_TAG_START (HOSTS_TAG_END @ [NL, NL]) \<and>
   strip_ultra_block_section (HOSTS_TAG_END @ [NL, NL]) \<noteq> HOSTS_TAG_END @ [NL, NL]"
  by code_simp


section \<open>Normalizing domains\<close>

lemma uniq_loop_acc: "uniq_loop seen acc xs = acc @ uniq_loop seen [] xs"
proof (induction xs arbitrary: seen acc)
  case Nil
  show ?case by simp
next
  case (Cons x xs)
  from Cons.IH [of "insert x seen" "acc @ [x]"] Cons.IH [of "insert x seen" "[x]"]
    Cons.IH [of seen acc]
  show ?case by simp
qed

lemma uniq_loop_Cons:
  "uniq_loop seen [] (x # xs) =
     (if x \<in> seen then uniq_loop seen [] xs else x # uniq_loop (insert x seen) [] xs)"
  using uniq_loop_acc [of "insert x seen" "[x]" xs] by simp

declare uniq_loop.simps(2) [simp del]

lemma set_uniq_loop: "set (uniq_loop seen [] xs) = set xs - seen"
  by (induction xs arbitrary: seen) (auto simp: uniq_loop_Cons)

lemma distinct_uniq_loop: "distinct (uniq_loop seen [] xs)"
  by (induction xs arbitrary: seen) (auto simp: uniq_loop_Cons set_uniq_loop)

lemma foldl_expand_step:
  "foldl expand_step acc ds = acc @ concat (map (expand_step []) ds)"
proof (induction ds arbitrary: acc)
  case Nil
  show ?case by simp
next
  case (Cons d ds)
  have "expand_step acc d = acc @ expand_step [] d"
    by (simp add: expand_step_def Let_def split: option.splits)
  with Cons.IH [of "expand_step acc d"] show ?case by simp
qed

lemma expand_step_pair:
  "expand_step [] d = (case canon d of None \<Rightarrow> [] | Some c \<Rightarrow> with_prefixed ''www.'' c)"
  by (simp add: expand_step_def with_prefixed_def startswith_def Let_def split: option.splits)

lemma concat_expand_step:
  "concat (map (expand_step []) ds) =
     concat (map (with_prefixed ''www.'') (List.map_filter canon ds))"
  by (induction ds) (auto simp: expand_step_pair List.map_filter_simps split: option.splits)

lemma expand_domains_alt:
  "expand_domains ds =
     uniq_loop {} [] (concat (map (with_prefixed ''www.'') (List.map_filter canon ds)))"
  by (simp add: expand_domains_def foldl_expand_step concat_expand_step)

lemma set_map_filter_canon: "set (List.map_filter canon ds) = {c. \<exists>d\<in>set ds. canon d = Some c}"
  by (force simp: List.map_filter_def image_iff)

lemma uniq_loop_pairs:
  assumes "\<forall>c\<in>set cs. \<not> prefix p c" and "\<forall>c\<in>S. \<not> prefix p c"
  shows "uniq_loop (S \<union> (\<lambda>c. p @ c) ` S) [] (concat (map (\<lambda>c. [c, p @ c]) cs)) =
         concat (map (\<lambda>c. [c, p @ c]) (uniq_loop S [] cs))"
  using assms
proof (induction cs arbitrary: S)
  case Nil
  show ?case by simp
next
  case (Cons c cs)
  let ?S' = "S \<union> (\<lambda>c. p @ c) ` S"
  from Cons.prems have c: "\<not> prefix p c" by simp
  have in_iff: "c \<in> ?S' \<longleftrightarrow> c \<in> S" using c by auto
  show ?case
  proof (cases "c \<in> S")
    case True
    then have "p @ c \<in> ?S'" by simp
    with True in_iff Cons.IH [of S] Cons.prems show ?thesis
      by (simp add: uniq_loop_Cons)
  next
    case False
    have "p @ c \<noteq> c" using c by auto
    moreover have "p @ c \<notin> S" using Cons.prems(2) by auto
    ultimately have w: "p @ c \<notin> insert c ?S'"
      using False by auto
    have eq: "insert (p @ c) (insert c ?S') =
              insert c S \<union> (\<lambda>c. p @ c) ` insert c S" by auto
    from Cons.prems c have "\<forall>c\<in>insert c S. \<not> prefix p c" by simp
    with Cons.IH [of "insert c S"] Cons.prems(1)
    have "uniq_loop (insert c S \<union> (\<lambda>c. p @ c) ` insert c S) []
            (concat (map (\<lambda>c. [c, p @ c]) cs)) =
          concat (map (\<lambda>c. [c, p @ c]) (uniq_loop (insert c S) [] cs))" by simp
    with False in_iff w eq show ?thesis
      by (simp add: uniq_loop_Cons)
  qed
qed

lemma with_prefixed_none:
  "\<forall>c\<in>set cs. \<not> prefix p c \<Longrightarrow> map (with_prefixed p) cs = map (\<lambda>c. [c, p @ c]) cs"
  by (simp add: with_prefixed_def)

lemma expand_domains_no_www:
  assumes "\<forall>d\<in>set ds. \<forall>c. canon d = Some c \<longrightarrow> \<not> startswith c ''www.''"
  shows "expand_domains ds =
         concat (map (\<lambda>c. [c, ''www.'' @ c]) (uniq_loop {} [] (List.map_filter canon ds)))"
proof -
  from assms have n: "\<forall>c\<in>set (List.map_filter canon ds). \<not> prefix ''www.'' c"
    by (auto simp: set_map_filter_canon startswith_def)
  from uniq_loop_pairs [OF n, of "{}"] show ?thesis
    by (simp only: expand_domains_alt with_prefixed_none [OF n] Un_empty_left image_empty ball_empty simp_thms)
qed

lemma uniq_loop_nths:
  "uniq_loop seen [] xs =
     nths xs {i. i < length xs \<and> xs ! i \<notin> seen \<union> set (take i xs)}"
proof (induction xs arbitrary: seen)
  case Nil
  show ?case by simp
next
  case (Cons x xs)
  have eq: "{j. Suc j \<in> {i. i < length (x # xs) \<and> (x # xs) ! i \<notin> seen \<union> set (take i (x # xs))}} =
            {j. j < length xs \<and> xs ! j \<notin> insert x seen \<union> set (take j xs)}"
    by auto
  show ?case
  proof (cases "x \<in> seen")
    case True
    then have "insert x seen = seen" by auto
    with True eq Cons.IH [of seen] show ?thesis
      by (simp add: uniq_loop_Cons nths_Cons)
  next
    case False
    with eq Cons.IH [of "insert x seen"] show ?thesis
      by (simp add: uniq_loop_Cons nths_Cons)
  qed
qed

text \<open>
  Claim C6: when no canonical form of the input starts with \<open>www.\<close>, the output of
  \<open>expand_domains\<close> has no duplicates; it holds, for every input that has a canonical
  form (every input that is not blank), that form followed at once by its \<open>www.\<close> form;
  and it is the expanded sequence (for every such input, in input order, the canonical
  form and then its \<open>www.\<close> form) restricted to the positions whose element does not
  occur at an earlier position, so deduplication keeps the first occurrences in their
  order.
\<close>

theorem expand_domains_bare_then_www:
  assumes "\<forall>d\<in>set ds. \<forall>c. canon d = Some c \<longrightarrow> \<not> startswith c ''www.''"
  shows "distinct (expand_domains ds) \<and>
         (\<forall>d\<in>set ds. \<forall>c. canon d = Some c \<longrightarrow>
            (\<exists>pre post. expand_domains ds = pre @ [c, ''www.'' @ c] @ post)) \<and>
         expand_domains ds =
           nths (concat (map (\<lambda>c. [c, ''www.'' @ c]) (List.map_filter canon ds)))
             {i. i < length (concat (map (\<lambda>c. [c, ''www.'' @ c]) (List.map_filter canon ds))) \<and>
                 concat (map (\<lambda>c. [c, ''www.'' @ c]) (List.map_filter canon ds)) ! i \<notin>
                   set (take i (concat (map (\<lambda>c. [c, ''www.'' @ c]) (List.map_filter canon ds))))}"
proof (intro conjI ballI allI impI)
  show "distinct (expand_domains ds)"
    by (simp add: expand_domains_alt distinct_uniq_loop)
next
  fix d c
  assume d: "d \<in> set ds" and c: "canon d = Some c"
  then have "c \<in> set (uniq_loop {} [] (List.map_filter canon ds))"
    by (auto simp: set_uniq_loop set_map_filter_canon)
  then obtain xs ys where "uniq_loop {} [] (List.map_filter canon ds) = xs @ c # ys"
    by (auto dest: split_list)
  with expand_domains_no_www [OF assms]
  have "expand_domains ds = concat (map (\<lambda>c. [c, ''www.'' @ c]) xs) @ [c, ''www.'' @ c] @
          concat (map (\<lambda>c. [c, ''www.'' @ c]) ys)"
    by simp
  then show "\<exists>pre post. expand_domains ds = pre @ [c, ''www.'' @ c] @ post"
    by blast
next
  let ?out = "concat (map (\<lambda>c. [c, ''www.'' @ c]) (List.map_filter canon ds))"
  from assms have n: "\<forall>c\<in>set (List.map_filter canon ds). \<not> prefix ''www.'' c"
    by (auto simp: set_map_filter_canon startswith_def)
  have "expand_domains ds = uniq_loop {} [] ?out"
    by (simp only: expand_domains_alt with_prefixed_none [OF n])
  also have "\<dots> = nths ?out {i. i < length ?out \<and> ?out ! i \<notin> {} \<union> set (take i ?out)}"
    by (rule uniq_loop_nths)
  finally show "expand_domains ds = nths ?out {i. i < length ?out \<and> ?out ! i \<notin> set (take i ?out)}"
    by (simp only: Un_empty_left)
qed

lemma lower_char_not_upper: "\<not> is_upper (lower_char c)"
  by (auto simp: lower_char_def is_upper_def Let_def)

lemma lower_id: "\<forall>x\<in>set s. \<not> is_upper x \<Longrightarrow> lower s = s"
  by (simp add: lower_def lower_char_def map_idI)

lemma set_rstrip: "set (rstrip s) \<subseteq> set s"
  using rstrip_prefix [of s] by (rule set_mono_prefix)

lemma set_strip: "set (strip s) \<subseteq> set s"
proof -
  have "set (lstrip s) \<subseteq> set s"
    by (auto simp: lstrip_def dest: set_dropWhileD)
  with set_rstrip [of "lstrip s"] show ?thesis by (auto simp: strip_def)
qed

lemma set_re_sub_scheme: "set (re_sub_scheme d) \<subseteq> set d"
  by (auto simp: re_sub_scheme_def dest: in_set_dropD)

lemma canon_props:
  assumes "canon d = Some c"
  shows "(\<forall>x\<in>set c. \<not> is_upper x) \<and> CHR ''/'' \<notin> set c"
proof -
  let ?d1 = "lower (strip d)"
  from assms obtain d2 where c: "c = split_slash_first d2" and d2: "set d2 \<subseteq> set ?d1"
    using set_re_sub_scheme [of ?d1]
    by (auto simp: canon_def Let_def split: if_splits)
  have "set c \<subseteq> set d2"
    unfolding c split_slash_first_def by (auto dest: set_takeWhileD)
  with d2 have "set c \<subseteq> set ?d1" by blast
  moreover have "\<forall>x\<in>set ?d1. \<not> is_upper x"
    by (auto simp: lower_def lower_char_not_upper)
  moreover have "CHR ''/'' \<notin> set c"
    unfolding c split_slash_first_def by (auto dest: set_takeWhileD)
  ultimately show ?thesis by blast
qed

lemma lstrip_id: "s = [] \<or> \<not> is_space (hd s) \<Longrightarrow> lstrip s = s"
  by (cases s) (auto simp: lstrip_def)

lemma strip_fixed:
  assumes "strip s = s" and "s \<noteq> []"
  shows "\<not> is_space (hd s) \<and> \<not> is_space (last s)"
proof -
  have "length (rstrip (lstrip s)) \<le> length (lstrip s)"
    using rstrip_prefix [of "lstrip s"] by (rule prefix_length_le)
  with assms(1) have "length s \<le> length (lstrip s)" by (simp add: strip_def)
  moreover have "length (lstrip s) \<le> length s"
    by (simp add: lstrip_def length_dropWhile_le)
  ultimately have "length (dropWhile is_space s) = length s" by (simp add: lstrip_def)
  then have h: "\<not> is_space (hd s)"
  proof (cases s)
    case Nil
    with assms(2) show ?thesis by simp
  next
    case (Cons a list)
    with \<open>length (dropWhile is_space s) = length s\<close> length_dropWhile_le [of is_space list]
    show ?thesis by (auto split: if_splits)
  qed
  then have "lstrip s = s" by (simp add: lstrip_id)
  with assms(1) have "rstrip s = s" by (simp add: strip_def)
  with rstrip_last [of s] assms(2) have "\<not> is_space (last s)" by simp
  with h show ?thesis by simp
qed

lemma strip_id: "\<not> is_space (hd s) \<Longrightarrow> \<not> is_space (last s) \<Longrightarrow> strip s = s"
  by (simp add: strip_def lstrip_id rstrip_id)

lemma canon_fix:
  assumes "c \<noteq> []" "strip c = c" "\<forall>x\<in>set c. \<not> is_upper x" "CHR ''/'' \<notin> set c"
  shows "canon c = Some c"
proof -
  have l: "lower (strip c) = c" using assms by (simp add: lower_id)
  have "\<not> prefix ''http://'' c" "\<not> prefix ''https://'' c"
    using assms(4) by (auto dest!: set_mono_prefix)
  moreover have "split_slash_first c = c"
    using assms(4) by (auto simp: split_slash_first_def takeWhile_eq_all_conv)
  ultimately show ?thesis using assms(1) l
    by (simp add: canon_def startswith_def)
qed

lemma canon_fix_www:
  assumes "c \<noteq> []" "strip c = c" "\<forall>x\<in>set c. \<not> is_upper x" "CHR ''/'' \<notin> set c"
  shows "canon (''www.'' @ c) = Some (''www.'' @ c)"
proof (rule canon_fix)
  show "''www.'' @ c \<noteq> []" by simp
  from strip_fixed [OF assms(2,1)] have "\<not> is_space (last c)" by simp
  then have "\<not> is_space (last (''www.'' @ c))" using assms(1) by simp
  moreover have "\<not> is_space (hd (''www.'' @ c))" by (simp add: is_space_def)
  ultimately show "strip (''www.'' @ c) = ''www.'' @ c" by (rule strip_id [rotated])
  show "\<forall>x\<in>set (''www.'' @ c). \<not> is_upper x"
    using assms(3) by (auto simp: is_upper_def)
  show "CHR ''/'' \<notin> set (''www.'' @ c)" using assms(4) by simp
qed

lemma with_prefixed_prefixed [simp]: "with_prefixed p (p @ c) = [p @ c]"
  by (simp add: with_prefixed_def)

lemma uniq_loop_expand_twice:
  assumes "\<forall>e\<in>S. \<not> prefix p e \<longrightarrow> p @ e \<in> S"
  shows "uniq_loop S [] (concat (map (with_prefixed p)
           (uniq_loop S [] (concat (map (with_prefixed p) cs))))) =
         uniq_loop S [] (concat (map (with_prefixed p) cs))"
  using assms
proof (induction cs arbitrary: S)
  case Nil
  show ?case by simp
next
  case (Cons c cs)
  show ?case
  proof (cases "c \<in> S")
    case True
    with Cons.prems have "\<not> prefix p c \<longrightarrow> p @ c \<in> S" by blast
    with True Cons.IH [OF Cons.prems] show ?thesis
      by (simp add: with_prefixed_def uniq_loop_Cons)
  next
    case False
    show ?thesis
    proof (cases "prefix p c \<or> p @ c \<in> S")
      case True
      with Cons.prems have "\<forall>e\<in>insert c S. \<not> prefix p e \<longrightarrow> p @ e \<in> insert c S"
        by auto
      from Cons.IH [OF this] True False show ?thesis
        by (auto simp: with_prefixed_def uniq_loop_Cons)
    next
      case nw: False
      then have ne: "p @ c \<noteq> c" by auto
      from Cons.prems
      have "\<forall>e\<in>insert (p @ c) (insert c S). \<not> prefix p e \<longrightarrow> p @ e \<in> insert (p @ c) (insert c S)"
        by auto
      from Cons.IH [OF this] nw False ne show ?thesis
        by (simp add: with_prefixed_def uniq_loop_Cons)
    qed
  qed
qed

lemma map_filter_id: "\<forall>x\<in>set xs. f x = Some x \<Longrightarrow> List.map_filter f xs = xs"
  by (induction xs) (simp_all add: List.map_filter_simps)

text \<open>
  Claim C5, as amended: \<open>expand_domains\<close> applied to its own output gives that output
  again, for every input list whose canonical forms are non-empty and have no leading
  or trailing whitespace. Nothing is said here of an empty canonical form, which the
  code lets through for an input such as \<open>"http://"\<close> although it skips empty inputs.
\<close>

theorem expand_domains_idempotent:
  assumes "\<forall>d\<in>set ds. \<forall>c. canon d = Some c \<longrightarrow> c \<noteq> [] \<and> strip c = c"
  shows "expand_domains (expand_domains ds) = expand_domains ds"
proof -
  let ?cs = "List.map_filter canon ds"
  have fixed: "canon e = Some e" if "e \<in> set (expand_domains ds)" for e
  proof -
    from that obtain c where c: "c \<in> set ?cs" and e: "e = c \<or> e = ''www.'' @ c"
      by (auto simp: expand_domains_alt set_uniq_loop with_prefixed_def split: if_splits)
    from c obtain d where "d \<in> set ds" "canon d = Some c"
      by (auto simp: set_map_filter_canon)
    with assms canon_props [of d c]
    have "c \<noteq> []" "strip c = c" "\<forall>x\<in>set c. \<not> is_upper x" "CHR ''/'' \<notin> set c"
      by auto
    with e canon_fix [of c] canon_fix_www [of c] show ?thesis by blast
  qed
  then have "List.map_filter canon (expand_domains ds) = expand_domains ds"
    by (intro map_filter_id) simp
  then have "expand_domains (expand_domains ds) =
      uniq_loop {} [] (concat (map (with_prefixed ''www.'') (expand_domains ds)))"
    by (simp only: expand_domains_alt [of "expand_domains ds"])
  also have "\<dots> = expand_domains ds"
    unfolding expand_domains_alt [of ds] by (rule uniq_loop_expand_twice) simp
  finally show ?thesis .
qed

text \<open>
  The claim as stated fails on \<open>["example.com /path"]\<close>: the whitespace before the slash
  is inside the text when it is trimmed, so the first pass yields \<open>"example.com "\<close> and
  its \<open>www.\<close> form, and the second pass trims both.
\<close>

theorem expand_domains_idempotent_counterexample:
  "expand_domains (expand_domains [''example.com /path'']) \<noteq>
     expand_domains [''example.com /path'']"
  by code_simp

lemma canon_example_com: "canon ''Example.com'' = Some ''example.com''"
  by code_simp

lemma canon_foo_org: "canon '' https://Foo.org/path?q=1'' = Some ''foo.org''"
  by code_simp

lemma canon_example_com_lower: "canon ''example.com'' = Some ''example.com''"
  by code_simp

theorem expand_domains_bare_then_www_witness:
  "canon ''Example.com'' = Some ''example.com'' \<and>
   canon '' https://Foo.org/path?q=1'' = Some ''foo.org'' \<and>
   canon ''example.com'' = Some ''example.com'' \<and>
   distinct (expand_domains [''Example.com'', '' https://Foo.org/path?q=1'', ''example.com'']) \<and>
   (\<exists>pre post. expand_domains [''Example.com'', '' https://Foo.org/path?q=1'', ''example.com''] =
      pre @ [''foo.org'', ''www.'' @ ''foo.org''] @ post) \<and>
   expand_domains [''Example.com'', '' https://Foo.org/path?q=1'', ''example.com''] =
     [''example.com'', ''www.example.com'', ''foo.org'', ''www.foo.org'']"
proof -
  let ?ds = "[''Example.com'', '' https://Foo.org/path?q=1'', ''example.com'']"
  have h: "\<forall>d\<in>set ?ds. \<forall>c. canon d = Some c \<longrightarrow> \<not> startswith c ''www.''"
    by (simp add: canon_example_com canon_foo_org canon_example_com_lower startswith_def)
  have v: "expand_domains ?ds = [''example.com'', ''www.example.com'', ''foo.org'', ''www.foo.org'']"
    by code_simp
  note t = expand_domains_bare_then_www [OF h]
  from t have "distinct (expand_domains ?ds)" by (elim conjE)
  moreover from t have "\<forall>d\<in>set ?ds. \<forall>c. canon d = Some c \<longrightarrow>
            (\<exists>pre post. expand_domains ?ds = pre @ [c, ''www.'' @ c] @ post)" by (elim conjE)
  with canon_foo_org have "\<exists>pre post. expand_domains ?ds = pre @ [''foo.org'', ''www.'' @ ''foo.org''] @ post"
    by simp
  ultimately show ?thesis
    using canon_example_com canon_foo_org canon_example_com_lower v by (intro conjI)
qed

theorem expand_domains_idempotent_witness:
  "canon ''Example.com'' = Some ''example.com'' \<and>
   canon '' https://Foo.org/path?q=1'' = Some ''foo.org'' \<and>
   strip ''example.com'' = ''example.com'' \<and> strip ''foo.org'' = ''foo.org'' \<and>
   expand_domains (expand_domains [''Example.com'', '' https://Foo.org/path?q=1'']) =
     expand_domains [''Example.com'', '' https://Foo.org/path?q=1'']"
proof -
  let ?ds = "[''Example.com'', '' https://Foo.org/path?q=1'']"
  have s: "strip ''example.com'' = ''example.com''" "strip ''foo.org'' = ''foo.org''"
    by code_simp+
  then have h: "\<forall>d\<in>set ?ds. \<forall>c. canon d = Some c \<longrightarrow> c \<noteq> [] \<and> strip c = c"
    by (auto simp: canon_example_com canon_foo_org)
  from expand_domains_idempotent [OF h] s canon_example_com canon_foo_org show ?thesis
    by (intro conjI)
qed


section \<open>Applying and clearing the block\<close>

lemma prefix_across_sep:
  assumes "x \<notin> set pat"
  shows "prefix pat (u @ x # v) \<longleftrightarrow> prefix pat u"
proof
  assume "prefix pat (u @ x # v)"
  then consider "prefix pat u" | us where "pat = u @ us" "prefix us (x # v)"
    by (auto simp: prefix_append)
  then show "prefix pat u"
  proof cases
    case 1
    then show ?thesis .
  next
    case 2
    with assms show ?thesis by (cases us) auto
  qed
next
  assume "prefix pat u"
  then show "prefix pat (u @ x # v)" by (rule prefix_prefix)
qed

lemma split_on_sep:
  assumes "x \<notin> set pat" and "pat \<noteq> []"
  shows "split_on pat (u @ x # v) =
     (case split_on pat u of
        Some (a, b) \<Rightarrow> Some (a, b @ x # v)
      | None \<Rightarrow> (case split_on pat v of None \<Rightarrow> None | Some (a, b) \<Rightarrow> Some (u @ x # a, b)))"
proof (induction u)
  case Nil
  from assms have "\<not> prefix pat (x # v)" by (cases pat) auto
  with assms(2) show ?case by (simp split: option.splits)
next
  case (Cons c u)
  show ?case
  proof (cases "prefix pat (c # u)")
    case True
    then have "prefix pat ((c # u) @ x # v)" by (rule prefix_prefix)
    moreover from True have "length pat \<le> length (c # u)" by (rule prefix_length_le)
    then have "drop (length pat) ((c # u) @ x # v) = drop (length pat) (c # u) @ x # v"
      by (simp only: drop_append diff_is_0_eq [THEN iffD2] drop_0)
    ultimately show ?thesis using True by simp
  next
    case False
    with prefix_across_sep [OF assms(1), of "c # u" v]
    have "\<not> prefix pat (c # u @ x # v)" by simp
    with False Cons.IH show ?thesis by (simp split: option.splits)
  qed
qed

lemma count_occ_sep:
  assumes "x \<notin> set pat" and "pat \<noteq> []"
  shows "count_occ pat (u @ x # v) = count_occ pat u + count_occ pat v"
proof (induction u)
  case Nil
  from assms have "\<not> prefix pat (x # v)" by (cases pat) auto
  with assms(2) show ?case by simp
next
  case (Cons c u)
  from prefix_across_sep [OF assms(1), of "c # u" v] Cons.IH show ?case by simp
qed

lemma count_occ_zero: "count_occ pat s = 0 \<longleftrightarrow> \<not> sublist pat s"
  by (induction s) (auto simp: sublist_Cons_right)

text \<open>
  A pattern cannot begin inside a text \<open>w\<close> that lacks the pattern's character number \<open>n\<close>,
  unless that character falls on the first \<open>n\<close> characters of what follows \<open>w\<close>.
\<close>

lemma no_prefix_before:
  assumes "n < length pat" "pat ! n = c" "c \<notin> set w" "w \<noteq> []" "c \<notin> set (take n t)"
  shows "\<not> prefix pat (w @ t)"
proof
  assume "prefix pat (w @ t)"
  then obtain z where z: "w @ t = pat @ z" by (auto simp: prefix_def)
  then have "(w @ t) ! n = c" using assms(1,2) by (simp add: nth_append)
  moreover have len: "n < length w + length t"
    using z assms(1) by (metis length_append trans_less_add1)
  show False
  proof (cases "n < length w")
    case True
    with \<open>(w @ t) ! n = c\<close> assms(3) show False by (auto simp: nth_append)
  next
    case False
    with \<open>(w @ t) ! n = c\<close> have "t ! (n - length w) = c" by (simp add: nth_append)
    moreover from False len assms(4) have "n - length w < n" "n - length w < length t"
      by (cases w; simp)+
    ultimately have "c \<in> set (take n t)"
      by (auto simp: in_set_conv_nth intro!: exI [of _ "n - length w"])
    with assms(5) show False by simp
  qed
qed

lemma split_on_before:
  assumes "n < length pat" "pat ! n = c" "c \<notin> set pre" "c \<notin> set (take n t)"
  shows "split_on pat (pre @ t) =
     (case split_on pat t of None \<Rightarrow> None | Some (a, b) \<Rightarrow> Some (pre @ a, b))"
  using assms(3)
proof (induction pre)
  case Nil
  show ?case by (simp split: option.splits)
next
  case (Cons x pre)
  from no_prefix_before [OF assms(1,2) Cons.prems _ assms(4)]
  have "\<not> prefix pat ((x # pre) @ t)" by simp
  with Cons show ?case by (auto split: option.splits)
qed

lemma count_occ_before:
  assumes "n < length pat" "pat ! n = c" "c \<notin> set pre" "c \<notin> set (take n t)"
  shows "count_occ pat (pre @ t) = count_occ pat t"
  using assms(3)
proof (induction pre)
  case Nil
  show ?case by simp
next
  case (Cons x pre)
  from no_prefix_before [OF assms(1,2) Cons.prems _ assms(4)]
  have "\<not> prefix pat ((x # pre) @ t)" by simp
  with Cons show ?case by simp
qed


lemma split_on_self: "pat \<noteq> [] \<Longrightarrow> split_on pat (pat @ r) = Some ([], r)"
  by (cases pat) auto

lemma count_occ_self_sep:
  assumes "x \<notin> set pat" and "pat \<noteq> []"
  shows "count_occ pat (pat @ x # v) = count_occ pat pat + count_occ pat v"
  using assms by (rule count_occ_sep)

lemma foldl_block_lines:
  "foldl (\<lambda>lines d. lines @ [f d, g d]) acc ds = acc @ concat (map (\<lambda>d. [f d, g d]) ds)"
  by (induction ds arbitrary: acc) simp_all

lemma join_snoc: "join sep (xs @ [e]) = concat (map (\<lambda>x. x @ sep) xs) @ e"
proof (induction xs)
  case Nil
  show ?case by simp
next
  case (Cons x xs)
  then show ?case by (cases xs) simp_all
qed

lemma join_block_lines:
  "join [NL] (block_lines ds) = HOSTS_TAG_START @ NL # entries ds @ HOSTS_TAG_END"
proof -
  have "concat (map (\<lambda>x. x @ [NL]) (concat (map (\<lambda>d. [''127.0.0.1 '' @ d, ''::1 '' @ d]) ds))) =
        entries ds"
    by (induction ds) (simp_all add: entries_def)
  moreover have "block_lines ds =
      (HOSTS_TAG_START # concat (map (\<lambda>d. [''127.0.0.1 '' @ d, ''::1 '' @ d]) ds)) @ [HOSTS_TAG_END]"
    by (simp add: block_lines_def foldl_block_lines)
  ultimately show ?thesis
    by (simp only: join_snoc) simp
qed

lemma U_not_in_entries:
  "\<forall>d\<in>set ds. CHR ''U'' \<notin> set d \<Longrightarrow> CHR ''U'' \<notin> set (entries ds)"
  by (induction ds) (simp_all add: entries_def NL_def)

lemma marker_facts:
  "NL \<notin> set HOSTS_TAG_START" "NL \<notin> set HOSTS_TAG_END"
  "HOSTS_TAG_START \<noteq> []" "HOSTS_TAG_END \<noteq> []"
  "6 < length HOSTS_TAG_START" "6 < length HOSTS_TAG_END"
  "HOSTS_TAG_START ! 6 = CHR ''U''" "HOSTS_TAG_END ! 6 = CHR ''U''"
  "CHR ''U'' \<notin> set (take 6 (HOSTS_TAG_END @ r))"
  "CHR ''U'' \<noteq> NL"
  by (simp_all add: HOSTS_TAG_START_def HOSTS_TAG_END_def NL_def)

lemma marker_counts:
  "count_occ HOSTS_TAG_START HOSTS_TAG_START = 1"
  "count_occ HOSTS_TAG_END HOSTS_TAG_END = 1"
  "count_occ HOSTS_TAG_START (HOSTS_TAG_END @ [NL]) = 0"
  "count_occ HOSTS_TAG_END HOSTS_TAG_START = 0"
  by code_simp+

lemma re_sub_block_fresh:
  assumes "\<not> sublist HOSTS_TAG_START h" and "CHR ''U'' \<notin> set body"
  shows "re_sub_block (h @ NL # HOSTS_TAG_START @ NL # body @ HOSTS_TAG_END @ [NL]) = h @ [NL, NL]"
proof -
  let ?rest = "NL # body @ HOSTS_TAG_END @ [NL]"
  from assms(1) have "split_on HOSTS_TAG_START h = None" by (simp add: split_on_None)
  then have 1: "split_on HOSTS_TAG_START (h @ NL # HOSTS_TAG_START @ ?rest) =
      Some (h @ [NL], ?rest)"
    using split_on_sep [OF marker_facts(1,3), of h "HOSTS_TAG_START @ ?rest"]
    by (simp add: split_on_self marker_facts(3))
  have "CHR ''U'' \<notin> set (NL # body)" using assms(2) marker_facts(10) by simp
  from split_on_before [OF marker_facts(6,8) this marker_facts(9), of "[NL]"]
  have 2: "split_on HOSTS_TAG_END ?rest = Some (NL # body, [NL])"
    by (simp add: split_on_self marker_facts(4))
  have "\<not> sublist HOSTS_TAG_START [NL]"
    by (simp add: HOSTS_TAG_START_def sublist_Cons_right)
  then have 3: "re_sub_block [NL] = [NL]" by (rule re_sub_block_no_start)
  have "re_sub_block (h @ NL # HOSTS_TAG_START @ ?rest) = (h @ [NL]) @ re_sub_block [NL]"
    by (subst re_sub_block.simps) (simp only: 1 2 option.case prod.case)
  then show ?thesis by (simp add: 3)
qed

lemma strip_after_apply:
  assumes "\<not> sublist HOSTS_TAG_START (strip_ultra_block_section t)"
    and "CHR ''U'' \<notin> set body"
  shows "strip_ultra_block_section
           (strip_ultra_block_section t @ NL # HOSTS_TAG_START @ NL # body @ HOSTS_TAG_END @ [NL]) =
         strip_ultra_block_section t"
proof -
  let ?h = "strip_ultra_block_section t"
  have "rstrip (?h @ [NL, NL]) = rstrip ?h"
    by (rule rstrip_append_spaces) (simp add: is_space_NL)
  also have "\<dots> = rstrip (rstrip (re_sub_block t))"
    unfolding strip_ultra_block_section_def Let_def
    by (rule rstrip_append_spaces) (simp add: is_space_NL)
  also have "\<dots> = rstrip (re_sub_block t)" by (rule rstrip_idem)
  finally have "rstrip (?h @ [NL, NL]) @ [NL] = ?h"
    by (simp add: strip_ultra_block_section_def)
  with re_sub_block_fresh [OF assms] show ?thesis
    by (simp add: strip_ultra_block_section_def [of "?h @ _"])
qed

lemma count_start_after_apply:
  assumes "\<not> sublist HOSTS_TAG_START h" and "CHR ''U'' \<notin> set body"
  shows "count_occ HOSTS_TAG_START (h @ NL # HOSTS_TAG_START @ NL # body @ HOSTS_TAG_END @ [NL]) = 1"
proof -
  from count_occ_before [OF marker_facts(5,7) assms(2) marker_facts(9), of "[NL]"]
  have "count_occ HOSTS_TAG_START (body @ HOSTS_TAG_END @ [NL]) = 0"
    by (simp add: marker_counts)
  moreover from assms(1) have "count_occ HOSTS_TAG_START h = 0" by (simp add: count_occ_zero)
  ultimately show ?thesis
    by (simp add: count_occ_sep [OF marker_facts(1,3)] marker_counts)
qed

lemma count_end_after_apply:
  assumes "CHR ''U'' \<notin> set body"
  shows "count_occ HOSTS_TAG_END (h @ NL # HOSTS_TAG_START @ NL # body @ HOSTS_TAG_END @ [NL]) =
         Suc (count_occ HOSTS_TAG_END h)"
proof -
  have "count_occ HOSTS_TAG_END (HOSTS_TAG_END @ [NL]) = 1"
    using count_occ_sep [OF marker_facts(2,4), of HOSTS_TAG_END "[]"]
    by (simp add: marker_counts marker_facts(4))
  with count_occ_before [OF marker_facts(6,8) assms marker_facts(9), of "[NL]"]
  have "count_occ HOSTS_TAG_END (body @ HOSTS_TAG_END @ [NL]) = 1"
    by simp
  then show ?thesis
    by (simp add: count_occ_sep [OF marker_facts(2,4)] marker_counts)
qed

lemma expand_domains_no_U:
  assumes "d \<in> set (expand_domains ds)"
  shows "CHR ''U'' \<notin> set d"
proof -
  from assms obtain c where c: "c \<in> set (List.map_filter canon ds)"
    and d: "d = c \<or> d = ''www.'' @ c"
    by (auto simp: expand_domains_alt set_uniq_loop with_prefixed_def split: if_splits)
  from c obtain d0 where "canon d0 = Some c" by (auto simp: set_map_filter_canon)
  then have "\<forall>x\<in>set c. \<not> is_upper x" by (simp add: canon_props)
  moreover have "is_upper CHR ''U''" by (simp add: is_upper_def)
  ultimately have "CHR ''U'' \<notin> set c" by blast
  with d show ?thesis by auto
qed


lemma no_start_after_strip:
  assumes "\<not> sublist HOSTS_TAG_START t"
  shows "\<not> sublist HOSTS_TAG_START (strip_ultra_block_section t)"
proof -
  from rstrip_prefix [of t] have "sublist (rstrip t) t" by (rule prefix_imp_sublist)
  with assms have "\<not> sublist HOSTS_TAG_START (rstrip t)"
    by (auto dest: sublist_order.order_trans)
  then have "count_occ HOSTS_TAG_START (rstrip t @ [NL]) = 0"
    using count_occ_sep [OF marker_facts(1,3), of "rstrip t" "[]"]
    by (simp add: count_occ_zero marker_facts(3))
  with assms show ?thesis
    by (simp add: strip_ultra_block_section_def re_sub_block_no_start count_occ_zero)
qed

lemma CR_not_NL: "CR \<noteq> NL"
  by (simp add: CR_def NL_def)

lemma universal_newlines_Cons: "c \<noteq> CR \<Longrightarrow> universal_newlines (c # cs) = c # universal_newlines cs"
  by (cases cs) simp_all

lemma universal_newlines_append:
  "a = [] \<or> last a \<noteq> CR \<Longrightarrow>
     universal_newlines (a @ b) = universal_newlines a @ universal_newlines b"
proof (induction a rule: universal_newlines.induct)
  case 1
  show ?case by simp
next
  case (2 c)
  then show ?case by (simp add: universal_newlines_Cons)
next
  case (3 c d cs)
  then show ?case by (cases cs) (auto simp: universal_newlines_Cons)
qed

lemma set_universal_newlines: "set (universal_newlines s) \<subseteq> insert NL (set s - {CR})"
  by (induction s rule: universal_newlines.induct) (auto simp: CR_not_NL)

lemma universal_newlines_id: "CR \<notin> set s \<Longrightarrow> universal_newlines s = s"
proof (induction s)
  case Nil
  show ?case by simp
next
  case (Cons a s)
  then have "a \<noteq> CR" and "universal_newlines s = s" by auto
  then show ?case by (simp add: universal_newlines_Cons)
qed

lemma set_re_sub_block: "set (re_sub_block s) \<subseteq> set s"
proof (induction s rule: re_sub_block.induct)
  case (1 s)
  show ?case
  proof (cases "split_on HOSTS_TAG_START s")
    case None
    then show ?thesis by (subst re_sub_block.simps) simp
  next
    case (Some p)
    obtain a r where p: "p = (a, r)" by (cases p)
    show ?thesis
    proof (cases "split_on HOSTS_TAG_END r")
      case None
      with Some p show ?thesis by (subst re_sub_block.simps) simp
    next
      case e: (Some q)
      obtain m r' where q: "q = (m, r')" by (cases q)
      from Some p have s: "s = a @ HOSTS_TAG_START @ r" by (auto dest: split_on_Some)
      from e q have r: "r = m @ HOSTS_TAG_END @ r'" by (auto dest: split_on_Some)
      from "1.IH" [OF Some [unfolded p] refl e [unfolded q] refl]
      have "set (re_sub_block r') \<subseteq> set r'" .
      moreover have "re_sub_block s = a @ re_sub_block r'"
        using Some p e q by (subst re_sub_block.simps) simp
      ultimately show ?thesis using s r by auto
    qed
  qed
qed

lemma strip_ultra_no_CR:
  assumes "CR \<notin> set t"
  shows "CR \<notin> set (strip_ultra_block_section t)"
proof -
  from set_rstrip [of "re_sub_block t"] set_re_sub_block [of t] assms
  have "CR \<notin> set (rstrip (re_sub_block t))" by blast
  then show ?thesis by (simp add: strip_ultra_block_section_def CR_not_NL)
qed

lemma universal_newlines_no_CR: "CR \<notin> set (universal_newlines s)"
  using set_universal_newlines [of s] CR_not_NL by auto

lemma read_hosts_no_CR: "CR \<notin> set (fst (read_hosts e))"
  by (simp add: read_hosts_def universal_newlines_no_CR split: option.splits)


lemma marker_no_CR: "CR \<notin> set HOSTS_TAG_START" "CR \<notin> set HOSTS_TAG_END"
  by (simp_all add: HOSTS_TAG_START_def HOSTS_TAG_END_def CR_def)

lemma entries_last: "entries ds = [] \<or> last (entries ds) \<noteq> CR"
proof (cases ds rule: rev_cases)
  case Nil
  then show ?thesis by (simp add: entries_def)
next
  case (snoc ds' d)
  then show ?thesis by (simp add: entries_def CR_not_NL [symmetric])
qed

lemma universal_newlines_written:
  assumes "CR \<notin> set h" and "body = [] \<or> last body \<noteq> CR"
  shows "universal_newlines (h @ NL # HOSTS_TAG_START @ NL # body @ HOSTS_TAG_END @ [NL]) =
         h @ NL # HOSTS_TAG_START @ NL # universal_newlines body @ HOSTS_TAG_END @ [NL]"
proof -
  let ?p = "h @ NL # HOSTS_TAG_START @ [NL]"
  let ?q = "HOSTS_TAG_END @ [NL]"
  have p: "CR \<notin> set ?p" using assms(1) marker_no_CR(1) CR_not_NL by simp
  have q: "CR \<notin> set ?q" using marker_no_CR(2) CR_not_NL by simp
  have "last ?p \<noteq> CR" using CR_not_NL by simp
  then have "universal_newlines (?p @ (body @ ?q)) =
      universal_newlines ?p @ universal_newlines (body @ ?q)"
    by (intro universal_newlines_append) simp
  also have "universal_newlines (body @ ?q) = universal_newlines body @ universal_newlines ?q"
    using assms(2) by (rule universal_newlines_append)
  finally have "universal_newlines (?p @ (body @ ?q)) = ?p @ universal_newlines body @ ?q"
    by (simp only: universal_newlines_id [OF p] universal_newlines_id [OF q])
  then show ?thesis by simp
qed

lemma U_not_in_universal_newlines: "CHR ''U'' \<notin> set s \<Longrightarrow> CHR ''U'' \<notin> set (universal_newlines s)"
  using set_universal_newlines [of s] by (auto simp: NL_def)

text \<open>A pattern whose first character does not recur in it cannot overlap itself.\<close>

lemma split_on_first:
  assumes "pat \<noteq> []" and "hd pat \<notin> set (tl pat)" and "\<not> sublist pat a"
  shows "split_on pat (a @ pat @ r) = Some (a, r)"
  using assms(3)
proof (induction a)
  case Nil
  from assms(1) show ?case by (simp add: split_on_self)
next
  case (Cons x a)
  have "\<not> prefix pat ((x # a) @ pat @ r)"
  proof
    assume "prefix pat ((x # a) @ pat @ r)"
    then have "prefix pat (x # a) \<or> (\<exists>us. pat = (x # a) @ us \<and> prefix us (pat @ r))"
      by (simp only: prefix_append)
    then consider "prefix pat (x # a)" | us where "pat = (x # a) @ us" "prefix us (pat @ r)"
      by blast
    then show False
    proof cases
      case 1
      then have "sublist pat (x # a)" by (rule prefix_imp_sublist)
      with Cons.prems show False by simp
    next
      case 2
      show False
      proof (cases us)
        case Nil
        with 2(1) Cons.prems show False by simp
      next
        case (Cons u us')
        with 2(2) assms(1) have "u = hd pat" by (cases pat) auto
        moreover from 2(1) Cons have "u \<in> set (tl pat)" by simp
        ultimately show False using assms(2) by simp
      qed
    qed
  qed
  moreover from Cons.prems have "\<not> sublist pat a" by (auto simp: sublist_Cons_right)
  ultimately show ?case using Cons.IH by simp
qed

lemma marker_hd:
  "hd HOSTS_TAG_START \<notin> set (tl HOSTS_TAG_START)" "hd HOSTS_TAG_END \<notin> set (tl HOSTS_TAG_END)"
  by (simp_all add: HOSTS_TAG_START_def HOSTS_TAG_END_def)

lemma re_sub_block_one:
  assumes "\<not> sublist HOSTS_TAG_START (a @ b)" and "\<not> sublist HOSTS_TAG_END m"
  shows "re_sub_block (a @ HOSTS_TAG_START @ m @ HOSTS_TAG_END @ b) = a @ b"
proof -
  from assms(1) have a: "\<not> sublist HOSTS_TAG_START a" and b: "\<not> sublist HOSTS_TAG_START b"
    by (auto simp: sublist_append)
  from split_on_first [OF marker_facts(3) marker_hd(1) a]
  have 1: "split_on HOSTS_TAG_START (a @ HOSTS_TAG_START @ m @ HOSTS_TAG_END @ b) =
      Some (a, m @ HOSTS_TAG_END @ b)" .
  from split_on_first [OF marker_facts(4) marker_hd(2) assms(2)]
  have 2: "split_on HOSTS_TAG_END (m @ HOSTS_TAG_END @ b) = Some (m, b)" .
  from b have 3: "re_sub_block b = b" by (rule re_sub_block_no_start)
  have "re_sub_block (a @ HOSTS_TAG_START @ m @ HOSTS_TAG_END @ b) = a @ re_sub_block b"
    by (subst re_sub_block.simps) (simp only: 1 2 option.case prod.case)
  with 3 show ?thesis by simp
qed

lemma apply_hosts_block_success:
  assumes "fst (apply_hosts_block ds e) = (True, None)"
  shows "hosts_file (snd (apply_hosts_block ds e)) =
           Some (strip_ultra_block_section (fst (read_hosts e)) @ NL # HOSTS_TAG_START @ NL #
                 entries (expand_domains ds) @ HOSTS_TAG_END @ [NL])"
  using assms
  by (auto simp: apply_hosts_block_def read_hosts_def write_hosts_def Let_def
      join_block_lines flush_dns_def split: if_splits write_outcome.splits)

lemma clear_hosts_block_success:
  assumes "fst (clear_hosts_block e) = (True, None)"
  shows "hosts_file (snd (clear_hosts_block e)) =
           Some (strip_ultra_block_section (fst (read_hosts e)))"
  using assms
  by (auto simp: clear_hosts_block_def read_hosts_def write_hosts_def Let_def
      flush_dns_def split: if_splits write_outcome.splits)

lemma entries_expand_no_U: "CHR ''U'' \<notin> set (entries (expand_domains ds))"
  by (rule U_not_in_entries) (simp add: expand_domains_no_U)

lemma read_after_apply:
  assumes "fst (apply_hosts_block ds e) = (True, None)"
    and "\<not> sublist HOSTS_TAG_START (strip_ultra_block_section (fst (read_hosts e)))"
  shows "strip_ultra_block_section (fst (read_hosts (snd (apply_hosts_block ds e)))) =
         strip_ultra_block_section (fst (read_hosts e))"
proof -
  let ?h = "strip_ultra_block_section (fst (read_hosts e))"
  let ?body = "entries (expand_domains ds)"
  have "CR \<notin> set ?h" using read_hosts_no_CR by (rule strip_ultra_no_CR)
  from universal_newlines_written [OF this entries_last] apply_hosts_block_success [OF assms(1)]
  have r: "fst (read_hosts (snd (apply_hosts_block ds e))) =
      ?h @ NL # HOSTS_TAG_START @ NL # universal_newlines ?body @ HOSTS_TAG_END @ [NL]"
    by (simp add: read_hosts_def)
  have "CHR ''U'' \<notin> set (universal_newlines ?body)"
    using entries_expand_no_U by (rule U_not_in_universal_newlines)
  with assms(2)
  have "strip_ultra_block_section
          (?h @ NL # HOSTS_TAG_START @ NL # universal_newlines ?body @ HOSTS_TAG_END @ [NL]) = ?h"
    by (rule strip_after_apply)
  with r show ?thesis by (simp only:)
qed


text \<open>
  A write that raises after the file was opened reports \<open>write_failed\<close> and leaves in the
  file what had reached it.
\<close>

lemma apply_hosts_block_write_raises:
  assumes "require_root e"
    and "hosts_write e (strip_ultra_block_section (fst (read_hosts e)) @ [NL] @
           join [NL] (block_lines (expand_domains ds)) @ [NL]) = WriteRaises left"
  shows "fst (apply_hosts_block ds e) = (False, Some ''write_failed'')"
    and "hosts_file (snd (apply_hosts_block ds e)) = Some left"
  using assms
  by (simp_all add: apply_hosts_block_def read_hosts_def write_hosts_def Let_def)

text \<open>
  Claim C1, as amended: let the initial document, as \<open>read_hosts\<close> returns it (decoded,
  line endings translated to \<open>\n\<close>), be one that \<open>strip_ultra_block_section\<close> leaves without
  a start marker, and let two calls of \<open>apply_hosts_block\<close> with the same domain list both
  report success. Then the second call leaves in the file the document the first wrote:
  the stripped initial document, an empty line, and one block whose entries are the two
  lines of every normalized domain, in order. The start marker occurs in it exactly
  once; the end marker occurs once in the block and besides only where the stripped
  initial document already had one.
\<close>

theorem apply_twice_one_block:
  assumes "fst (apply_hosts_block ds e) = (True, None)"
    and "fst (apply_hosts_block ds (snd (apply_hosts_block ds e))) = (True, None)"
    and "\<not> sublist HOSTS_TAG_START (strip_ultra_block_section (fst (read_hosts e)))"
  shows "let doc = strip_ultra_block_section (fst (read_hosts e)) @ [NL] @
                     HOSTS_TAG_START @ [NL] @
                     concat (map (\<lambda>d. ''127.0.0.1 '' @ d @ [NL] @ ''::1 '' @ d @ [NL])
                              (expand_domains ds)) @
                     HOSTS_TAG_END @ [NL]
         in hosts_file (snd (apply_hosts_block ds e)) = Some doc \<and>
            hosts_file (snd (apply_hosts_block ds (snd (apply_hosts_block ds e)))) = Some doc \<and>
            count_occ HOSTS_TAG_START doc = 1 \<and>
            count_occ HOSTS_TAG_END doc =
              Suc (count_occ HOSTS_TAG_END (strip_ultra_block_section (fst (read_hosts e))))"
proof -
  let ?h = "strip_ultra_block_section (fst (read_hosts e))"
  let ?body = "entries (expand_domains ds)"
  let ?doc = "?h @ NL # HOSTS_TAG_START @ NL # ?body @ HOSTS_TAG_END @ [NL]"
  let ?e1 = "snd (apply_hosts_block ds e)"
  have h1: "hosts_file ?e1 = Some ?doc"
    using assms(1) by (rule apply_hosts_block_success)
  have "strip_ultra_block_section (fst (read_hosts ?e1)) = ?h"
    using assms(1,3) by (rule read_after_apply)
  with apply_hosts_block_success [OF assms(2)]
  have h2: "hosts_file (snd (apply_hosts_block ds ?e1)) = Some ?doc" by simp
  have c1: "count_occ HOSTS_TAG_START ?doc = 1"
    using assms(3) entries_expand_no_U by (rule count_start_after_apply)
  have c2: "count_occ HOSTS_TAG_END ?doc = Suc (count_occ HOSTS_TAG_END ?h)"
    using entries_expand_no_U by (rule count_end_after_apply)
  have "?doc = ?h @ [NL] @ HOSTS_TAG_START @ [NL] @
                 concat (map (\<lambda>d. ''127.0.0.1 '' @ d @ [NL] @ ''::1 '' @ d @ [NL])
                          (expand_domains ds)) @ HOSTS_TAG_END @ [NL]"
    by (simp add: entries_def)
  with h1 h2 c1 c2 show ?thesis by (simp add: Let_def)
qed

text \<open>
  Claim C2, as amended: for an initial document as above, when \<open>apply_hosts_block\<close> and
  then \<open>clear_hosts_block\<close> both report success, the file holds
  \<open>strip_ultra_block_section\<close> of the initial document as read, which is what a successful
  \<open>clear_hosts_block\<close> alone leaves. For an initial document without a start marker that
  is the document with its trailing whitespace replaced by one newline; for one with a
  single block it is what stands before and after the block, joined, with its trailing
  whitespace replaced by one newline.
\<close>

theorem apply_then_clear:
  assumes "fst (apply_hosts_block ds e) = (True, None)"
    and "fst (clear_hosts_block (snd (apply_hosts_block ds e))) = (True, None)"
    and "\<not> sublist HOSTS_TAG_START (strip_ultra_block_section (fst (read_hosts e)))"
  shows "hosts_file (snd (clear_hosts_block (snd (apply_hosts_block ds e)))) =
           Some (strip_ultra_block_section (fst (read_hosts e))) \<and>
         (fst (clear_hosts_block e) = (True, None) \<longrightarrow>
            hosts_file (snd (clear_hosts_block (snd (apply_hosts_block ds e)))) =
              hosts_file (snd (clear_hosts_block e))) \<and>
         (\<not> sublist HOSTS_TAG_START (fst (read_hosts e)) \<longrightarrow>
            hosts_file (snd (clear_hosts_block (snd (apply_hosts_block ds e)))) =
              Some (rstrip (fst (read_hosts e)) @ [NL])) \<and>
         (\<forall>a m b. fst (read_hosts e) = a @ HOSTS_TAG_START @ m @ HOSTS_TAG_END @ b \<and>
              \<not> sublist HOSTS_TAG_START (a @ b) \<and> \<not> sublist HOSTS_TAG_END m \<longrightarrow>
            hosts_file (snd (clear_hosts_block (snd (apply_hosts_block ds e)))) =
              Some (rstrip (a @ b) @ [NL]))"
proof -
  let ?t = "fst (read_hosts e)"
  let ?e1 = "snd (apply_hosts_block ds e)"
  have "strip_ultra_block_section (fst (read_hosts ?e1)) = strip_ultra_block_section ?t"
    using assms(1,3) by (rule read_after_apply)
  with clear_hosts_block_success [OF assms(2)]
  have r: "hosts_file (snd (clear_hosts_block ?e1)) = Some (strip_ultra_block_section ?t)"
    by simp
  have 2: "hosts_file (snd (clear_hosts_block ?e1)) = hosts_file (snd (clear_hosts_block e))"
    if "fst (clear_hosts_block e) = (True, None)"
    using r clear_hosts_block_success [OF that] by simp
  have 3: "hosts_file (snd (clear_hosts_block ?e1)) = Some (rstrip ?t @ [NL])"
    if "\<not> sublist HOSTS_TAG_START ?t"
    using r that by (simp add: strip_ultra_block_section_def re_sub_block_no_start)
  have 4: "hosts_file (snd (clear_hosts_block ?e1)) = Some (rstrip (a @ b) @ [NL])"
    if "?t = a @ HOSTS_TAG_START @ m @ HOSTS_TAG_END @ b"
      and "\<not> sublist HOSTS_TAG_START (a @ b)" and "\<not> sublist HOSTS_TAG_END m" for a m b
    using r re_sub_block_one [OF that(2,3)] that(1)
    by (simp add: strip_ultra_block_section_def)
  from r 2 3 4 show ?thesis by blast
qed

text \<open>
  The claim as stated fails on a hosts file that does not end with a newline: after a
  successful apply and clear it ends with one.
\<close>

theorem apply_then_clear_counterexample:
  "fst (clear_hosts_block (snd (apply_hosts_block [''example.com'']
      \<lparr>euid = Some 0, macos = False, hosts_file = Some ''127.0.0.1 localhost'',
         hosts_write = (\<lambda>t. WriteOk), trace = []\<rparr>))) = (True, None) \<and>
   hosts_file (snd (clear_hosts_block (snd (apply_hosts_block [''example.com'']
      \<lparr>euid = Some 0, macos = False, hosts_file = Some ''127.0.0.1 localhost'',
         hosts_write = (\<lambda>t. WriteOk), trace = []\<rparr>)))) \<noteq> Some ''127.0.0.1 localhost''"
  by code_simp

text \<open>
  The claim as stated fails on a hosts file that holds an end marker and no start
  marker: after two successful applies the document has two end markers.
\<close>

theorem apply_twice_counterexample:
  "fst (apply_hosts_block [''example.com''] (snd (apply_hosts_block [''example.com'']
        \<lparr>euid = Some 0, macos = False, hosts_file = Some (HOSTS_TAG_END @ [NL]),
           hosts_write = (\<lambda>t. WriteOk), trace = []\<rparr>))) = (True, None) \<and>
   count_occ HOSTS_TAG_END (case hosts_file (snd (apply_hosts_block [''example.com'']
      (snd (apply_hosts_block [''example.com'']
        \<lparr>euid = Some 0, macos = False, hosts_file = Some (HOSTS_TAG_END @ [NL]),
           hosts_write = (\<lambda>t. WriteOk), trace = []\<rparr>)))) of None \<Rightarrow> [] | Some t \<Rightarrow> t) = 2"
  by code_simp

theorem apply_twice_one_block_witness:
  "fst (apply_hosts_block [''Example.com'']
       \<lparr>euid = Some 0, macos = False,
          hosts_file = Some (''127.0.0.1 localhost'' @ [CR, NL] @ HOSTS_TAG_START @ [CR, NL] @
                             ''127.0.0.1 old.example'' @ [CR, NL] @ HOSTS_TAG_END @ [CR, NL]),
          hosts_write = (\<lambda>t. WriteOk), trace = []\<rparr>) = (True, None) \<and>
   hosts_file (snd (apply_hosts_block [''Example.com'']
     (snd (apply_hosts_block [''Example.com'']
       \<lparr>euid = Some 0, macos = False,
          hosts_file = Some (''127.0.0.1 localhost'' @ [CR, NL] @ HOSTS_TAG_START @ [CR, NL] @
                             ''127.0.0.1 old.example'' @ [CR, NL] @ HOSTS_TAG_END @ [CR, NL]),
          hosts_write = (\<lambda>t. WriteOk), trace = []\<rparr>)))) =
   Some (''127.0.0.1 localhost'' @ [NL] @ [NL] @ HOSTS_TAG_START @ [NL] @
         ''127.0.0.1 example.com'' @ [NL] @ ''::1 example.com'' @ [NL] @
         ''127.0.0.1 www.example.com'' @ [NL] @ ''::1 www.example.com'' @ [NL] @
         HOSTS_TAG_END @ [NL])"
proof -
  let ?e = "\<lparr>euid = Some 0, macos = False,
          hosts_file = Some (''127.0.0.1 localhost'' @ [CR, NL] @ HOSTS_TAG_START @ [CR, NL] @
                             ''127.0.0.1 old.example'' @ [CR, NL] @ HOSTS_TAG_END @ [CR, NL]),
          hosts_write = (\<lambda>t. WriteOk), trace = []\<rparr>"
  let ?ds = "[''Example.com'']"
  have h1: "fst (apply_hosts_block ?ds ?e) = (True, None)"
    by code_simp
  have h2: "fst (apply_hosts_block ?ds (snd (apply_hosts_block ?ds ?e))) = (True, None)"
    by code_simp
  have h3: "\<not> sublist HOSTS_TAG_START (strip_ultra_block_section (fst (read_hosts ?e)))"
    by code_simp
  have v: "strip_ultra_block_section (fst (read_hosts ?e)) @ [NL] @ HOSTS_TAG_START @ [NL] @
             concat (map (\<lambda>d. ''127.0.0.1 '' @ d @ [NL] @ ''::1 '' @ d @ [NL])
                      (expand_domains ?ds)) @ HOSTS_TAG_END @ [NL] =
           ''127.0.0.1 localhost'' @ [NL] @ [NL] @ HOSTS_TAG_START @ [NL] @
           ''127.0.0.1 example.com'' @ [NL] @ ''::1 example.com'' @ [NL] @
           ''127.0.0.1 www.example.com'' @ [NL] @ ''::1 www.example.com'' @ [NL] @
           HOSTS_TAG_END @ [NL]"
    by code_simp
  note t = apply_twice_one_block [OF h1 h2 h3, unfolded Let_def]
  from t have "hosts_file (snd (apply_hosts_block ?ds (snd (apply_hosts_block ?ds ?e)))) =
      Some (strip_ultra_block_section (fst (read_hosts ?e)) @ [NL] @ HOSTS_TAG_START @ [NL] @
             concat (map (\<lambda>d. ''127.0.0.1 '' @ d @ [NL] @ ''::1 '' @ d @ [NL])
                      (expand_domains ?ds)) @ HOSTS_TAG_END @ [NL])"
    by (elim conjE)
  with v have "hosts_file (snd (apply_hosts_block ?ds (snd (apply_hosts_block ?ds ?e)))) =
      Some (''127.0.0.1 localhost'' @ [NL] @ [NL] @ HOSTS_TAG_START @ [NL] @
           ''127.0.0.1 example.com'' @ [NL] @ ''::1 example.com'' @ [NL] @
           ''127.0.0.1 www.example.com'' @ [NL] @ ''::1 www.example.com'' @ [NL] @
           HOSTS_TAG_END @ [NL])"
    by (simp only:)
  with h1 show ?thesis
    by (intro conjI)
qed

theorem apply_then_clear_witness:
  "fst (apply_hosts_block [''Example.com'']
       \<lparr>euid = Some 0, macos = False,
          hosts_file = Some (''127.0.0.1 localhost'' @ [CR, NL] @ HOSTS_TAG_START @ [CR, NL] @
                             ''127.0.0.1 old.example'' @ [CR, NL] @ HOSTS_TAG_END @ [CR, NL]),
          hosts_write = (\<lambda>t. WriteOk), trace = []\<rparr>) = (True, None) \<and>
   hosts_file (snd (clear_hosts_block (snd (apply_hosts_block [''Example.com'']
       \<lparr>euid = Some 0, macos = False,
          hosts_file = Some (''127.0.0.1 localhost'' @ [CR, NL] @ HOSTS_TAG_START @ [CR, NL] @
                             ''127.0.0.1 old.example'' @ [CR, NL] @ HOSTS_TAG_END @ [CR, NL]),
          hosts_write = (\<lambda>t. WriteOk), trace = []\<rparr>)))) =
   Some (''127.0.0.1 localhost'' @ [NL])"
proof -
  let ?e = "\<lparr>euid = Some 0, macos = False,
          hosts_file = Some (''127.0.0.1 localhost'' @ [CR, NL] @ HOSTS_TAG_START @ [CR, NL] @
                             ''127.0.0.1 old.example'' @ [CR, NL] @ HOSTS_TAG_END @ [CR, NL]),
          hosts_write = (\<lambda>t. WriteOk), trace = []\<rparr>"
  let ?ds = "[''Example.com'']"
  have h1: "fst (apply_hosts_block ?ds ?e) = (True, None)"
    by code_simp
  have h2: "fst (clear_hosts_block (snd (apply_hosts_block ?ds ?e))) = (True, None)"
    by code_simp
  have h3: "\<not> sublist HOSTS_TAG_START (strip_ultra_block_section (fst (read_hosts ?e)))"
    by code_simp
  have v: "strip_ultra_block_section (fst (read_hosts ?e)) = ''127.0.0.1 localhost'' @ [NL]"
    by code_simp
  note t = apply_then_clear [OF h1 h2 h3]
  from t have "hosts_file (snd (clear_hosts_block (snd (apply_hosts_block ?ds ?e)))) =
      Some (strip_ultra_block_section (fst (read_hosts ?e)))"
    by (elim conjE)
  with v have "hosts_file (snd (clear_hosts_block (snd (apply_hosts_block ?ds ?e)))) =
      Some (''127.0.0.1 localhost'' @ [NL])"
    by (simp only:)
  with h1 show ?thesis
    by (intro conjI)
qed

end
